theory Spec2Isabelle
  imports Complex_Main "HOL-Library.Word"
begin

section \<open>JavaScript values used by the background remover\<close>

text \<open>
  The library is one class, \<open>SimpleBackgroundRemover\<close>.  Its numeric code works on
  JavaScript numbers.  A number is modelled as \<open>NaN\<close>, one of the two infinities, or a
  finite value, which is a real number.  Every arithmetic operation of the code rounds its
  exact result to binary64 (nearest, ties to even), and a store into a \<open>Float32Array\<close>
  rounds to binary32; overflow to an infinity does not occur in the range of these
  computations and is not modelled.  Bytes of a \<open>Uint8ClampedArray\<close> are 8-bit words.
\<close>

type_synonym byte = "8 word"

datatype number = NaN | PosInf | NegInf | Num real

datatype error =
    Error string          \<comment> \<open>\<open>throw new Error(msg)\<close> in the source\<close>
  | TypeError             \<comment> \<open>property access on \<open>undefined\<close>\<close>
  | Rejection string      \<comment> \<open>a rejected promise of the host, rethrown by \<open>await\<close>\<close>
  | DOMException string   \<comment> \<open>an exception thrown by a call into the host\<close>

text \<open>
  Rounding to the nearest integer, ties to the even one; the powers of two; and rounding a
  real to a binary format with \<open>p\<close> significant bits whose least normal exponent is
  \<open>emin\<close>: binary64 has 53 bits, binary32 (\<open>Math.fround\<close>, a \<open>Float32Array\<close> cell) 24.
\<close>

definition round_even :: "real \<Rightarrow> int" where
  "round_even x =
     (let f = \<lfloor>x\<rfloor>; r = x - of_int f
      in if r < 1 / 2 then f else if 1 / 2 < r then f + 1 else if even f then f else f + 1)"

definition pow2 :: "int \<Rightarrow> real" where
  "pow2 e = (if 0 \<le> e then 2 ^ nat e else 1 / 2 ^ nat (- e))"

definition round_binary :: "nat \<Rightarrow> int \<Rightarrow> real \<Rightarrow> real" where
  "round_binary p emin x =
     (if x = 0 then 0
      else let e = max \<lfloor>log 2 \<bar>x\<bar>\<rfloor> emin - (int p - 1)
           in of_int (round_even (x / pow2 e)) * pow2 e)"

definition binary64 :: "real \<Rightarrow> real" where
  "binary64 x = round_binary 53 (- 1022) x"

definition fround :: "real \<Rightarrow> real" where
  "fround x = round_binary 24 (- 126) x"

text \<open>The operators \<open>/\<close>, \<open>*\<close> and \<open>+\<close> on finite numbers.\<close>

definition js_div :: "real \<Rightarrow> real \<Rightarrow> real" where
  "js_div a b = binary64 (a / b)"

definition js_mul :: "real \<Rightarrow> real \<Rightarrow> real" where
  "js_mul a b = binary64 (a * b)"

definition js_add :: "real \<Rightarrow> real \<Rightarrow> real" where
  "js_add a b = binary64 (a + b)"

text \<open>\<open>xs[i]\<close> on a typed array with a natural index: \<open>undefined\<close> out of range.\<close>

definition typed_read :: "'a list \<Rightarrow> nat \<Rightarrow> 'a option" where
  "typed_read xs i = (if i < length xs then Some (xs ! i) else None)"

text \<open>
  \<open>xs[r]\<close> with a number as the key: only a whole, non-negative number below the length
  names an element; every other key reads as \<open>undefined\<close>.
\<close>

definition typed_read_num :: "'a list \<Rightarrow> real \<Rightarrow> 'a option" where
  "typed_read_num xs r =
     (if r = of_int \<lfloor>r\<rfloor> \<and> 0 \<le> r \<and> r < real (length xs)
      then Some (xs ! nat \<lfloor>r\<rfloor>) else None)"

text \<open>\<open>Math.round\<close> rounds to the nearest integer, ties towards plus infinity.\<close>

definition Math_round :: "real \<Rightarrow> int" where
  "Math_round x = \<lfloor>x + 1 / 2\<rfloor>"

definition Math_floor :: "real \<Rightarrow> int" where
  "Math_floor x = \<lfloor>x\<rfloor>"

definition Math_sqrt :: "real \<Rightarrow> real" where
  "Math_sqrt x = binary64 (sqrt x)"

text \<open>Storing a number into a \<open>Uint8ClampedArray\<close> cell (ToUint8Clamp).\<close>

definition toUint8Clamp :: "int \<Rightarrow> byte" where
  "toUint8Clamp v = word_of_int (max 0 (min 255 v))"


section \<open>Tensor preprocessor: \<open>_preprocessImage\<close>\<close>

text \<open>
  The canvas is fixed to 1024 x 1024; \<open>drawImage\<close> resamples the picture into it and
  \<open>getImageData\<close> returns the RGBA bytes.  Both are host operations: the model takes the
  returned byte buffer \<open>data\<close> and whether \<open>getContext('2d')\<close> gave a context.
\<close>

record tensor =
  dims :: "nat list"
  tdata :: "number list"

definition side :: nat where
  "side = 1024"

definition npix :: nat where
  "npix = side * side"

text \<open>
  \<open>tensorData[k] = data[j] / 255.0\<close>: the quotient in binary64, stored into the
  \<open>Float32Array\<close> of line 301.  An index out of range reads \<open>undefined\<close>, and the quotient
  is \<open>NaN\<close>.
\<close>

definition div255 :: "byte option \<Rightarrow> number" where
  "div255 b = (case b of None \<Rightarrow> NaN | Some v \<Rightarrow> Num (fround (js_div (real (unat v)) 255)))"

text \<open>One iteration of the loop of lines 302 to 306.\<close>

definition preprocess_step :: "nat \<Rightarrow> byte list \<Rightarrow> number list \<Rightarrow> nat \<Rightarrow> number list" where
  "preprocess_step n data t i =
     t[i := div255 (typed_read data (i * 4)),
       n + i := div255 (typed_read data (i * 4 + 1)),
       2 * n + i := div255 (typed_read data (i * 4 + 2))]"

definition preprocess_loop :: "nat \<Rightarrow> byte list \<Rightarrow> number list \<Rightarrow> nat \<Rightarrow> number list" where
  "preprocess_loop n data t k = foldl (preprocess_step n data) t [0..<k]"

definition preprocessImage :: "bool \<Rightarrow> byte list \<Rightarrow> error + tensor" where
  "preprocessImage ctx data =
     (if \<not> ctx then Inl (Error ''Could not get 2D context from canvas'')
      else Inr \<lparr> dims = [1, 3, side, side],
                 tdata = preprocess_loop npix data (replicate (1 * 3 * side * side) (Num 0)) npix \<rparr>)"


section \<open>Mask compositor: \<open>_applyMask\<close>\<close>

text \<open>
  \<open>img.width\<close>, \<open>img.height\<close> and the RGBA bytes that \<open>getImageData\<close> returns for the
  canvas the picture was drawn on.
\<close>

record image =
  width :: nat
  height :: nat
  pixels :: "byte list"

text \<open>\<open>maskData[maskIdx] || 0\<close>: \<open>undefined\<close>, \<open>NaN\<close> and zero are falsy.\<close>

definition or_zero :: "number option \<Rightarrow> number" where
  "or_zero v = (case v of None \<Rightarrow> Num 0 | Some NaN \<Rightarrow> Num 0 | Some x \<Rightarrow> x)"

text \<open>
  \<open>data[imgIdx + 3] = Math.round(alpha * 255)\<close>: the value that the clamped byte array
  holds afterwards.
\<close>

definition alpha_byte :: "number \<Rightarrow> byte" where
  "alpha_byte a =
     (case a of
        Num r \<Rightarrow> toUint8Clamp (Math_round (js_mul r 255))
      | PosInf \<Rightarrow> 255
      | NegInf \<Rightarrow> 0
      | NaN \<Rightarrow> 0)"

definition maskX_of :: "nat \<Rightarrow> real \<Rightarrow> nat \<Rightarrow> int" where
  "maskX_of w maskSize x = Math_floor (js_mul (js_div (real x) (real w)) maskSize)"

definition maskY_of :: "nat \<Rightarrow> real \<Rightarrow> nat \<Rightarrow> int" where
  "maskY_of h maskSize y = Math_floor (js_mul (js_div (real y) (real h)) maskSize)"

definition maskIdx_of :: "nat \<Rightarrow> nat \<Rightarrow> real \<Rightarrow> nat \<Rightarrow> nat \<Rightarrow> real" where
  "maskIdx_of w h maskSize x y =
     js_add (js_mul (of_int (maskY_of h maskSize y)) maskSize) (of_int (maskX_of w maskSize x))"

text \<open>The alpha byte that the loop body computes for pixel \<open>(x, y)\<close>.\<close>

definition pixel_alpha :: "nat \<Rightarrow> nat \<Rightarrow> number list \<Rightarrow> real \<Rightarrow> nat \<Rightarrow> nat \<Rightarrow> byte" where
  "pixel_alpha w h maskData maskSize x y =
     alpha_byte (or_zero (typed_read_num maskData (maskIdx_of w h maskSize x y)))"

text \<open>The body of the inner loop (lines 330 to 335), then the two loops.\<close>

definition pixel_step ::
  "nat \<Rightarrow> nat \<Rightarrow> number list \<Rightarrow> real \<Rightarrow> nat \<Rightarrow> byte list \<Rightarrow> nat \<Rightarrow> byte list" where
  "pixel_step w h maskData maskSize y data x =
     (let imgIdx = (y * w + x) * 4
      in data[imgIdx + 3 := pixel_alpha w h maskData maskSize x y])"

definition row_loop ::
  "nat \<Rightarrow> nat \<Rightarrow> number list \<Rightarrow> real \<Rightarrow> nat \<Rightarrow> byte list \<Rightarrow> nat \<Rightarrow> byte list" where
  "row_loop w h maskData maskSize k data y =
     foldl (pixel_step w h maskData maskSize y) data [0..<k]"

definition mask_loop ::
  "nat \<Rightarrow> nat \<Rightarrow> number list \<Rightarrow> real \<Rightarrow> nat \<Rightarrow> byte list \<Rightarrow> byte list" where
  "mask_loop w h maskData maskSize k data =
     foldl (\<lambda>d y. row_loop w h maskData maskSize w d y) data [0..<k]"

definition applyMask :: "bool \<Rightarrow> image \<Rightarrow> number list \<Rightarrow> error + image" where
  "applyMask ctx img maskData =
     (if \<not> ctx then Inl (Error ''Could not get 2D context from canvas'')
      else
        let maskSize = Math_sqrt (real (length maskData))
        in Inr (img \<lparr> pixels :=
                  mask_loop (width img) (height img) maskData maskSize (height img) (pixels img) \<rparr>))"

text \<open>What the specification's words give for the same pixel: the side floored.\<close>

definition spec_pixel_alpha :: "nat \<Rightarrow> nat \<Rightarrow> number list \<Rightarrow> nat \<Rightarrow> nat \<Rightarrow> byte" where
  "spec_pixel_alpha w h maskData x y =
     (let M = \<lfloor>sqrt (real (length maskData))\<rfloor>;
          maskX = \<lfloor>real x / real w * real_of_int M\<rfloor>;
          maskY = \<lfloor>real y / real h * real_of_int M\<rfloor>;
          idx = maskY * M + maskX;
          v = (if 0 \<le> idx \<and> idx < int (length maskData) then or_zero (Some (maskData ! nat idx))
               else Num 0)
      in alpha_byte v)"


section \<open>Model cache: \<open>_getCachedModel\<close> and \<open>_cacheModel\<close>\<close>

text \<open>
  The record that \<open>_cacheModel\<close> stores, the database \<open>ModelCache\<close> with its object store
  \<open>models\<close>, and \<open>window.indexedDB\<close>, which is absent in some hosts.  The call
  \<open>indexedDB.open\<close> of lines 207 and 259 throws (a \<open>SecurityError\<close> where storage is denied
  to the origin), or returns a request that ends in \<open>onerror\<close> or in \<open>onsuccess\<close>.
  \<open>transaction_ok\<close> tells whether \<open>db.transaction\<close> of lines 219 and 271 returns (it throws
  when the database has no object store \<open>models\<close>), \<open>get_ok\<close> whether the \<open>get\<close> request ends
  in \<open>onsuccess\<close> (otherwise \<open>onerror\<close>), and \<open>put_ok\<close> whether the \<open>put\<close> request of line
  278 stores its record.
\<close>

record cacheData =
  cached_data :: "byte list"
  timestamp :: nat
  version :: string

datatype open_result = OpenThrows | OpenError | OpenSuccess

record database =
  opens :: open_result
  transaction_ok :: bool
  get_ok :: bool
  put_ok :: bool
  models :: "string \<rightharpoonup> cacheData"

type_synonym storage = "database option"

text \<open>
  Both functions return the promise built at lines 206 and 258, whose executor has no
  \<open>try\<close>: an exception of \<open>indexedDB.open\<close> rejects the promise, and an exception inside the
  \<open>onsuccess\<close> handler, which runs later, leaves it pending for ever.  The result is \<open>None\<close>
  for a promise that never settles, \<open>Some (Inl e)\<close> for a rejected and \<open>Some (Inr v)\<close> for a
  resolved one.
\<close>

definition getCachedModel :: "storage \<Rightarrow> string \<Rightarrow> (error + byte list option) option" where
  "getCachedModel indexedDB key =
     (case indexedDB of
        None \<Rightarrow> Some (Inr None)
      | Some db \<Rightarrow>
          (case opens db of
             OpenThrows \<Rightarrow> Some (Inl (DOMException ''SecurityError''))
           | OpenError \<Rightarrow> Some (Inr None)
           | OpenSuccess \<Rightarrow>
               if \<not> transaction_ok db then None
               else if \<not> get_ok db then Some (Inr None)
               else (case models db key of
                       None \<Rightarrow> Some (Inr None)
                     | Some entry \<Rightarrow> Some (Inr (Some (cached_data entry))))))"

text \<open>
  \<open>_cacheModel\<close> resolves at line 279 as soon as the \<open>put\<close> request is made, whether or not
  the record is stored afterwards.
\<close>

definition cacheModel ::
  "storage \<Rightarrow> string \<Rightarrow> byte list \<Rightarrow> nat \<Rightarrow> (error + storage) option" where
  "cacheModel indexedDB key modelBuffer now =
     (case indexedDB of
        None \<Rightarrow> Some (Inr None)
      | Some db \<Rightarrow>
          (case opens db of
             OpenThrows \<Rightarrow> Some (Inl (DOMException ''SecurityError''))
           | OpenError \<Rightarrow> Some (Inr (Some db))
           | OpenSuccess \<Rightarrow>
               if \<not> transaction_ok db then None
               else if \<not> put_ok db then Some (Inr (Some db))
               else Some (Inr (Some (db \<lparr> models := (models db)
                      (key \<mapsto> \<lparr> cached_data = modelBuffer, timestamp = now,
                                version = ''1.4'' \<rparr>) \<rparr>)))))"


section \<open>Model fetcher: \<open>_downloadAndCacheModelWithProgress\<close>\<close>

text \<open>
  What the host delivers: the response of \<open>fetch\<close> (its \<open>ok\<close> flag, whether it has a body,
  and the \<open>content-length\<close> header as \<open>parseInt\<close> reads it), and the results of the
  successive \<open>reader.read()\<close> calls.
\<close>

datatype header = Missing | Numeric int | NotNumeric

record response =
  ok :: bool
  has_body :: bool
  content_length :: header

datatype read_result = Chunk "byte list" | EndOfStream | ReadError

text \<open>The local variables of the read loop; \<open>totalSize\<close> is \<open>None\<close> for \<open>NaN\<close>.\<close>

record download =
  totalSize :: "int option"
  chunks :: "byte list list"
  downloadedSize :: nat
  lastPercent :: int

text \<open>\<open>parseInt(response.headers.get('content-length') || '0')\<close>\<close>

definition parse_length :: "header \<Rightarrow> int option" where
  "parse_length hv = (case hv of Missing \<Rightarrow> Some 0 | Numeric v \<Rightarrow> Some v | NotNumeric \<Rightarrow> None)"

text \<open>Lines 135 to 141: the checks on the response and the initial loop state.\<close>

definition on_response :: "response \<Rightarrow> error + download" where
  "on_response r =
     (if \<not> ok r then Inl (Error ''Model download failed'')
      else if \<not> has_body r then Inl (Error ''Response body is null'')
      else Inr \<lparr> totalSize = parse_length (content_length r), chunks = [],
                 downloadedSize = 0, lastPercent = 10 \<rparr>)"

text \<open>
  Lines 145 to 153: one chunk.  The result is the new loop state and the percent passed to
  the progress callback, if any.
\<close>

definition on_chunk :: "byte list \<Rightarrow> download \<Rightarrow> download \<times> int option" where
  "on_chunk v d =
     (let d1 = d \<lparr> chunks := chunks d @ [v], downloadedSize := downloadedSize d + length v \<rparr>
      in case totalSize d1 of
           None \<Rightarrow> (d1, None)
         | Some tsize \<Rightarrow>
             if tsize > 0 then
               let percent = 10 + Math_round
                     (js_mul (js_div (real (downloadedSize d1)) (real_of_int tsize)) 60)
               in if percent \<noteq> lastPercent d1
                  then (d1 \<lparr> lastPercent := percent \<rparr>, Some percent)
                  else (d1, None)
             else (d1, None))"

text \<open>
  Lines 155 to 160.  \<open>modelBuffer.set(chunk, offset)\<close> throws a \<open>RangeError\<close> when the chunk
  does not fit.
\<close>

definition typed_set :: "byte list \<Rightarrow> byte list \<Rightarrow> nat \<Rightarrow> error + byte list" where
  "typed_set buf chunk offset =
     (if offset + length chunk \<le> length buf
      then Inr (take offset buf @ chunk @ drop (offset + length chunk) buf)
      else Inl (Error ''RangeError''))"

fun copy_chunks :: "byte list list \<Rightarrow> byte list \<Rightarrow> nat \<Rightarrow> error + byte list" where
  "copy_chunks [] buf offset = Inr buf"
| "copy_chunks (chunk # rest) buf offset =
     (case typed_set buf chunk offset of
        Inl e \<Rightarrow> Inl e
      | Inr buf' \<Rightarrow> copy_chunks rest buf' (offset + length chunk))"

definition assemble :: "download \<Rightarrow> error + byte list" where
  "assemble d = copy_chunks (chunks d) (replicate (downloadedSize d) 0) 0"

text \<open>
  The whole function against a scripted host: the outcome of \<open>fetch\<close> and the list of read
  results.  A list that ends before \<open>EndOfStream\<close> or \<open>ReadError\<close> is a stream that never
  settles: the function does not return, which is \<open>None\<close>.  Otherwise the result is the
  percents passed to the callback, the outcome, and the storage afterwards.
\<close>

datatype fetch_result = FetchRejects | FetchResolves response "read_result list"

fun read_loop ::
  "read_result list \<Rightarrow> download \<Rightarrow> int list \<Rightarrow> (int list \<times> (error + download)) option" where
  "read_loop [] d ps = None"
| "read_loop (ReadError # rs) d ps = Some (ps, Inl (Rejection ''read''))"
| "read_loop (EndOfStream # rs) d ps = Some (ps, Inr d)"
| "read_loop (Chunk v # rs) d ps =
     (case on_chunk v d of
        (d', None) \<Rightarrow> read_loop rs d' ps
      | (d', Some percent) \<Rightarrow> read_loop rs d' (ps @ [percent]))"

definition downloadAndCacheModelWithProgress ::
  "fetch_result \<Rightarrow> storage \<Rightarrow> string \<Rightarrow> nat
     \<Rightarrow> (int list \<times> (error + byte list) \<times> storage) option" where
  "downloadAndCacheModelWithProgress host indexedDB key now =
     (case host of
        FetchRejects \<Rightarrow> Some ([], Inl (Rejection ''fetch''), indexedDB)
      | FetchResolves r reads \<Rightarrow>
          (case on_response r of
             Inl e \<Rightarrow> Some ([], Inl e, indexedDB)
           | Inr d0 \<Rightarrow>
               (case read_loop reads d0 [] of
                  None \<Rightarrow> None
                | Some (ps, Inl e) \<Rightarrow> Some (ps, Inl e, indexedDB)
                | Some (ps, Inr d) \<Rightarrow>
                    (case assemble d of
                       Inl e \<Rightarrow> Some (ps, Inl e, indexedDB)
                     | Inr modelBuffer \<Rightarrow>
                         (case cacheModel indexedDB key modelBuffer now of
                            None \<Rightarrow> None
                          | Some (Inl e) \<Rightarrow> Some (ps @ [75], Inl e, indexedDB)
                          | Some (Inr indexedDB') \<Rightarrow>
                              Some (ps @ [75], Inr modelBuffer, indexedDB'))))))"

text \<open>
  The specification's class \<open>DownloadError\<close>, a network or HTTP failure while fetching the
  model: the two errors thrown on the response, and the rejections of \<open>fetch\<close> and
  \<open>read\<close> that \<open>await\<close> hands on.
\<close>

definition DownloadError :: "error \<Rightarrow> bool" where
  "DownloadError e \<longleftrightarrow>
     e = Error ''Model download failed'' \<or> e = Error ''Response body is null''
     \<or> e = Rejection ''fetch'' \<or> e = Rejection ''read''"


section \<open>Pipeline orchestrator: \<open>removeBackground\<close>\<close>

text \<open>
  Calls of \<open>removeBackground\<close> on one instance run as cooperative tasks: a task runs until
  its next \<open>await\<close>, and goes on when the host settles what it waits for.  The model is a
  transition function on events of the host.  A \<open>world\<close> holds the fields of the instance
  (\<open>session\<close>, \<open>modelLoaded\<close>, \<open>modelLoading\<close>, \<open>modelCacheKey\<close>), the calls made so far,
  the host's storage, whether \<open>globalThis.ort\<close> with its \<open>InferenceSession\<close> is there,
  whether a canvas gives a 2D context, and the log of the host operations started.  Each
  task records where it waits and the percents it has passed to the progress callback
  (the calls \<open>_emitProgress\<close> makes when a callback is registered; what the callback
  throws is swallowed).  A session is represented by the model bytes it was created from.
  The pixel work of \<open>_preprocessImage\<close> and \<open>_applyMask\<close> is modelled above; here only
  their failure without a 2D context takes part.
\<close>

datatype input = ImageElement | Base64String | OtherValue

datatype return_mode = ReturnImage | ReturnBase64

datatype outcome = ResultImage | ResultBase64

datatype io = DecodeImage | OpenDatabase | FetchModel | CreateSession | RunSession | EncodeImage

datatype pc =
    Running                        \<comment> \<open>not suspended\<close>
  | AwaitDecode                    \<comment> \<open>line 48, \<open>_base64ToImage\<close>\<close>
  | AwaitCacheGet                  \<comment> \<open>line 109, \<open>_getCachedModel\<close>\<close>
  | AwaitCreateCached "byte list"  \<comment> \<open>line 112, \<open>InferenceSession.create(cachedModel)\<close>\<close>
  | AwaitFetch                     \<comment> \<open>line 134, \<open>fetch\<close>\<close>
  | AwaitRead download             \<comment> \<open>line 143, \<open>reader.read()\<close>\<close>
  | AwaitCachePut "byte list"      \<comment> \<open>line 162, \<open>_cacheModel\<close>\<close>
  | AwaitCreate "byte list"        \<comment> \<open>line 123, \<open>InferenceSession.create(modelBuffer)\<close>\<close>
  | AwaitLoad                      \<comment> \<open>line 56, \<open>_loadModelWithProgress\<close> has returned\<close>
  | AwaitTimer                     \<comment> \<open>line 63, the 100 ms timer\<close>
  | AwaitPreprocess                \<comment> \<open>line 70, \<open>_preprocessImage\<close>\<close>
  | AwaitRun                       \<comment> \<open>line 73, \<open>session.run\<close>\<close>
  | AwaitEncode                    \<comment> \<open>line 82, \<open>_canvasToImage\<close>\<close>
  | Resolved outcome
  | Rejected error

record task =
  pc :: pc
  progress :: "int list"
  ret :: return_mode

record world =
  session :: "byte list option"
  modelLoaded :: bool
  modelLoading :: bool
  modelCacheKey :: string
  tasks :: "task list"
  indexedDB :: storage
  ort :: bool
  canvas2d :: bool
  io_log :: "io list"

datatype event =
    Invoke input return_mode    \<comment> \<open>a new call of \<open>removeBackground\<close>\<close>
  | Decoded nat bool            \<comment> \<open>\<open>img.onload\<close> (\<open>True\<close>) or \<open>img.onerror\<close> of \<open>_base64ToImage\<close>\<close>
  | CacheRead nat               \<comment> \<open>the promise of \<open>_getCachedModel\<close> settles, if it ever does\<close>
  | SessionCreated nat bool     \<comment> \<open>\<open>InferenceSession.create\<close> resolves (\<open>True\<close>) or rejects\<close>
  | Fetched nat "response option"  \<comment> \<open>\<open>fetch\<close> resolves with a response, or rejects\<close>
  | ReadDone nat read_result    \<comment> \<open>\<open>reader.read()\<close> settles\<close>
  | CacheWritten nat nat        \<comment> \<open>the promise of \<open>_cacheModel\<close> settles, if it ever does; \<open>Date.now()\<close>\<close>
  | Tick nat                    \<comment> \<open>a timer fires, or the continuation of a settled promise runs\<close>
  | RunDone nat bool            \<comment> \<open>\<open>session.run\<close> resolves (\<open>True\<close>) or rejects\<close>
  | Encoded nat bool            \<comment> \<open>\<open>img.onload\<close> (\<open>True\<close>) or \<open>img.onerror\<close> of \<open>_canvasToImage\<close>\<close>

definition update_task :: "nat \<Rightarrow> (task \<Rightarrow> task) \<Rightarrow> world \<Rightarrow> world" where
  "update_task i f w = w \<lparr> tasks := (tasks w)[i := f (tasks w ! i)] \<rparr>"

definition emitProgress :: "int \<Rightarrow> task \<Rightarrow> task" where
  "emitProgress percent t = t \<lparr> progress := progress t @ [percent] \<rparr>"

definition goto :: "pc \<Rightarrow> task \<Rightarrow> task" where
  "goto c t = t \<lparr> pc := c \<rparr>"

definition start :: "io \<Rightarrow> world \<Rightarrow> world" where
  "start a w = w \<lparr> io_log := io_log w @ [a] \<rparr>"

text \<open>Lines 68 to 70: after the model branch.\<close>

definition afterModel :: "nat \<Rightarrow> world \<Rightarrow> world" where
  "afterModel i w =
     (if session w = None then update_task i (goto (Rejected (Error ''Model not loaded''))) w
      else update_task i (goto AwaitPreprocess \<circ> emitProgress 15) w)"

text \<open>
  Lines 108 and 109: \<open>_loadModelWithProgress\<close> up to its first \<open>await\<close>.  \<open>_getCachedModel\<close>
  opens the database unless \<open>window.indexedDB\<close> is absent.
\<close>

definition loadModelWithProgress :: "nat \<Rightarrow> world \<Rightarrow> world" where
  "loadModelWithProgress i w =
     (let w1 = update_task i (goto AwaitCacheGet \<circ> emitProgress 5) w
      in case indexedDB w of None \<Rightarrow> w1 | Some db \<Rightarrow> start OpenDatabase w1)"

text \<open>Lines 54 to 67: the three model branches.\<close>

definition checkModel :: "nat \<Rightarrow> world \<Rightarrow> world" where
  "checkModel i w =
     (if \<not> modelLoaded w \<and> \<not> modelLoading w then
        loadModelWithProgress i (w \<lparr> modelLoading := True \<rparr>)
      else if \<not> modelLoaded w \<and> modelLoading w then
        update_task i (goto AwaitTimer \<circ> emitProgress 10) w
      else
        afterModel i (update_task i (emitProgress 10) w))"

text \<open>Lines 43 to 53: a call, up to its first \<open>await\<close>.\<close>

definition removeBackground :: "input \<Rightarrow> return_mode \<Rightarrow> world \<Rightarrow> world" where
  "removeBackground imageOrBase64 r w =
     (let i = length (tasks w);
          w0 = w \<lparr> tasks := tasks w @ [\<lparr> pc = Running, progress = [0], ret = r \<rparr>] \<rparr>
      in case imageOrBase64 of
           Base64String \<Rightarrow>
             start DecodeImage (update_task i (goto AwaitDecode \<circ> emitProgress 2) w0)
         | ImageElement \<Rightarrow> checkModel i w0
         | OtherValue \<Rightarrow>
             update_task i
               (goto (Rejected (Error ''Input must be an HTMLImageElement or a base64 string''))) w0)"

definition on_decoded :: "nat \<Rightarrow> bool \<Rightarrow> world \<Rightarrow> world" where
  "on_decoded i loaded w =
     (case pc (tasks w ! i) of
        AwaitDecode \<Rightarrow>
          if loaded then checkModel i w
          else update_task i (goto (Rejected (Rejection ''image''))) w
      | _ \<Rightarrow> w)"

text \<open>Lines 110 to 121, up to \<open>InferenceSession.create\<close> or \<open>fetch\<close>.\<close>

definition on_cache_read :: "nat \<Rightarrow> world \<Rightarrow> world" where
  "on_cache_read i w =
     (case pc (tasks w ! i) of
        AwaitCacheGet \<Rightarrow>
          (case getCachedModel (indexedDB w) (modelCacheKey w) of
             None \<Rightarrow> w
           | Some (Inl e) \<Rightarrow> update_task i (goto (Rejected e)) w
           | Some (Inr (Some cachedModel)) \<Rightarrow>
               if \<not> ort w
               then update_task i (goto (Rejected TypeError) \<circ> emitProgress 15) w
               else start CreateSession
                      (update_task i (goto (AwaitCreateCached cachedModel) \<circ> emitProgress 15) w)
           | Some (Inr None) \<Rightarrow>
               if \<not> ort w
               then update_task i
                      (goto (Rejected (Error ''onnxruntime-web (ort) is not loaded. Please include it via a <script> tag or import.''))
                        \<circ> emitProgress 10) w
               else start FetchModel (update_task i (goto AwaitFetch \<circ> emitProgress 10) w))
      | _ \<Rightarrow> w)"

text \<open>Lines 112 to 114 and 123 to 124.\<close>

definition on_session_created :: "nat \<Rightarrow> bool \<Rightarrow> world \<Rightarrow> world" where
  "on_session_created i created w =
     (case pc (tasks w ! i) of
        AwaitCreateCached cachedModel \<Rightarrow>
          if created
          then update_task i (goto AwaitLoad \<circ> emitProgress 30) (w \<lparr> session := Some cachedModel \<rparr>)
          else update_task i (goto (Rejected (Rejection ''create''))) w
      | AwaitCreate modelBuffer \<Rightarrow>
          if created
          then update_task i (goto AwaitLoad \<circ> emitProgress 90) (w \<lparr> session := Some modelBuffer \<rparr>)
          else update_task i (goto (Rejected (Rejection ''create''))) w
      | _ \<Rightarrow> w)"

text \<open>Lines 134 to 143.\<close>

definition on_fetched :: "nat \<Rightarrow> response option \<Rightarrow> world \<Rightarrow> world" where
  "on_fetched i resp w =
     (case pc (tasks w ! i) of
        AwaitFetch \<Rightarrow>
          (case resp of
             None \<Rightarrow> update_task i (goto (Rejected (Rejection ''fetch''))) w
           | Some r \<Rightarrow>
               (case on_response r of
                  Inl e \<Rightarrow> update_task i (goto (Rejected e)) w
                | Inr d \<Rightarrow> update_task i (goto (AwaitRead d)) w))
      | _ \<Rightarrow> w)"

text \<open>Lines 143 to 162.\<close>

definition on_read_done :: "nat \<Rightarrow> read_result \<Rightarrow> world \<Rightarrow> world" where
  "on_read_done i res w =
     (case pc (tasks w ! i) of
        AwaitRead d \<Rightarrow>
          (case res of
             ReadError \<Rightarrow> update_task i (goto (Rejected (Rejection ''read''))) w
           | Chunk v \<Rightarrow>
               (case on_chunk v d of
                  (d', None) \<Rightarrow> update_task i (goto (AwaitRead d')) w
                | (d', Some percent) \<Rightarrow>
                    update_task i (goto (AwaitRead d') \<circ> emitProgress percent) w)
           | EndOfStream \<Rightarrow>
               (case assemble d of
                  Inl e \<Rightarrow> update_task i (goto (Rejected e)) w
                | Inr modelBuffer \<Rightarrow>
                    let w1 = update_task i (goto (AwaitCachePut modelBuffer) \<circ> emitProgress 75) w
                    in case indexedDB w of None \<Rightarrow> w1 | Some db \<Rightarrow> start OpenDatabase w1))
      | _ \<Rightarrow> w)"

text \<open>Lines 162 and 163, then 122 and 123.\<close>

definition on_cache_written :: "nat \<Rightarrow> nat \<Rightarrow> world \<Rightarrow> world" where
  "on_cache_written i now w =
     (case pc (tasks w ! i) of
        AwaitCachePut modelBuffer \<Rightarrow>
          (case cacheModel (indexedDB w) (modelCacheKey w) modelBuffer now of
             None \<Rightarrow> w
           | Some (Inl e) \<Rightarrow> update_task i (goto (Rejected e)) w
           | Some (Inr indexedDB') \<Rightarrow>
               start CreateSession
                 (update_task i (goto (AwaitCreate modelBuffer) \<circ> emitProgress 80)
                    (w \<lparr> indexedDB := indexedDB' \<rparr>)))
      | _ \<Rightarrow> w)"

text \<open>
  Lines 57 and 58 after the load; the loop of lines 62 to 64; lines 70 to 73 after
  \<open>_preprocessImage\<close>, which throws without a 2D context.
\<close>

definition on_tick :: "nat \<Rightarrow> world \<Rightarrow> world" where
  "on_tick i w =
     (case pc (tasks w ! i) of
        AwaitLoad \<Rightarrow> afterModel i (w \<lparr> modelLoaded := True, modelLoading := False \<rparr>)
      | AwaitTimer \<Rightarrow> if modelLoading w then w else afterModel i w
      | AwaitPreprocess \<Rightarrow>
          if \<not> canvas2d w
          then update_task i (goto (Rejected (Error ''Could not get 2D context from canvas''))) w
          else start RunSession (update_task i (goto AwaitRun \<circ> emitProgress 35) w)
      | _ \<Rightarrow> w)"

text \<open>Lines 74 to 85; \<open>_applyMask\<close> throws without a 2D context.\<close>

definition on_run_done :: "nat \<Rightarrow> bool \<Rightarrow> world \<Rightarrow> world" where
  "on_run_done i done w =
     (case pc (tasks w ! i) of
        AwaitRun \<Rightarrow>
          if \<not> done then update_task i (goto (Rejected (Rejection ''run''))) w
          else if \<not> canvas2d w
          then update_task i
                 (goto (Rejected (Error ''Could not get 2D context from canvas'')) \<circ> emitProgress 70) w
          else if ret (tasks w ! i) = ReturnBase64
          then update_task i
                 (goto (Resolved ResultBase64) \<circ> emitProgress 100 \<circ> emitProgress 90 \<circ> emitProgress 70) w
          else start EncodeImage
                 (update_task i (goto AwaitEncode \<circ> emitProgress 90 \<circ> emitProgress 70) w)
      | _ \<Rightarrow> w)"

definition on_encoded :: "nat \<Rightarrow> bool \<Rightarrow> world \<Rightarrow> world" where
  "on_encoded i loaded w =
     (case pc (tasks w ! i) of
        AwaitEncode \<Rightarrow>
          if loaded then update_task i (goto (Resolved ResultImage) \<circ> emitProgress 100) w
          else update_task i (goto (Rejected (Rejection ''image''))) w
      | _ \<Rightarrow> w)"

text \<open>An event for a call that does not exist, or that waits for something else, changes nothing.\<close>

definition step :: "event \<Rightarrow> world \<Rightarrow> world" where
  "step e w =
     (case e of
        Invoke imageOrBase64 r \<Rightarrow> removeBackground imageOrBase64 r w
      | Decoded i loaded \<Rightarrow> if i < length (tasks w) then on_decoded i loaded w else w
      | CacheRead i \<Rightarrow> if i < length (tasks w) then on_cache_read i w else w
      | SessionCreated i created \<Rightarrow> if i < length (tasks w) then on_session_created i created w else w
      | Fetched i resp \<Rightarrow> if i < length (tasks w) then on_fetched i resp w else w
      | ReadDone i res \<Rightarrow> if i < length (tasks w) then on_read_done i res w else w
      | CacheWritten i now \<Rightarrow> if i < length (tasks w) then on_cache_written i now w else w
      | Tick i \<Rightarrow> if i < length (tasks w) then on_tick i w else w
      | RunDone i done \<Rightarrow> if i < length (tasks w) then on_run_done i done w else w
      | Encoded i loaded \<Rightarrow> if i < length (tasks w) then on_encoded i loaded w else w)"

definition exec :: "event list \<Rightarrow> world \<Rightarrow> world" where
  "exec evs w = foldl (\<lambda>w e. step e w) w evs"

text \<open>A new instance (the constructor, lines 27 to 34) in a given host.\<close>

definition new_instance :: "string \<Rightarrow> storage \<Rightarrow> bool \<Rightarrow> bool \<Rightarrow> world" where
  "new_instance key db has_ort has_canvas =
     \<lparr> session = None, modelLoaded = False, modelLoading = False, modelCacheKey = key,
       tasks = [], indexedDB = db, ort = has_ort, canvas2d = has_canvas, io_log = [] \<rparr>"

text \<open>The calls that are inside \<open>_loadModelWithProgress\<close>, and the model downloads started.\<close>

definition loading :: "pc \<Rightarrow> bool" where
  "loading c =
     (case c of
        AwaitCacheGet \<Rightarrow> True | AwaitCreateCached b \<Rightarrow> True | AwaitFetch \<Rightarrow> True
      | AwaitRead d \<Rightarrow> True | AwaitCachePut b \<Rightarrow> True | AwaitCreate b \<Rightarrow> True
      | AwaitLoad \<Rightarrow> True | _ \<Rightarrow> False)"

definition downloads :: "world \<Rightarrow> nat" where
  "downloads w = length (filter (\<lambda>a. a = FetchModel) (io_log w))"


section \<open>Predicates used in the proofs about the orchestrator\<close>

text \<open>
  The call an event is for; a download state whose byte count is the length of its chunks;
  the pcs at which a call has ended; what one step may do to the pc of the call it resumes
  and to the fields of the instance; the invariant of the instance; and the state left
  behind by a load that was rejected.
\<close>

definition target :: "event \<Rightarrow> nat option" where
  "target e = (case e of Invoke a b \<Rightarrow> None | Decoded i b \<Rightarrow> Some i | CacheRead i \<Rightarrow> Some i
     | SessionCreated i b \<Rightarrow> Some i | Fetched i r \<Rightarrow> Some i | ReadDone i r \<Rightarrow> Some i
     | CacheWritten i n \<Rightarrow> Some i | Tick i \<Rightarrow> Some i | RunDone i b \<Rightarrow> Some i | Encoded i b \<Rightarrow> Some i)"

definition consistent :: "download \<Rightarrow> bool" where
  "consistent d \<longleftrightarrow> downloadedSize d = length (concat (chunks d))"

definition terminal :: "pc \<Rightarrow> bool" where
  "terminal c = (case c of Resolved res \<Rightarrow> True | Rejected e \<Rightarrow> True | _ \<Rightarrow> False)"

definition summary :: "pc \<Rightarrow> pc \<Rightarrow> world \<Rightarrow> world \<Rightarrow> bool" where
  "summary c c' w w' \<longleftrightarrow>
     (loading c' \<and> \<not> loading c \<longrightarrow>
        \<not> modelLoaded w \<and> \<not> modelLoading w \<and> c' = AwaitCacheGet
        \<and> modelLoading w' \<and> \<not> modelLoaded w')
   \<and> (loading c \<and> \<not> loading c' \<longrightarrow>
        (c = AwaitLoad \<and> modelLoaded w' \<and> \<not> modelLoading w')
        \<or> ((\<exists>e. c' = Rejected e) \<and> modelLoaded w' = modelLoaded w
            \<and> modelLoading w' = modelLoading w))
   \<and> ((loading c \<longleftrightarrow> loading c') \<longrightarrow>
        modelLoaded w' = modelLoaded w \<and> modelLoading w' = modelLoading w)
   \<and> (session w \<noteq> None \<longrightarrow> session w' \<noteq> None)
   \<and> (session w' \<noteq> session w \<longrightarrow> c' = AwaitLoad \<and> c \<noteq> AwaitLoad)
   \<and> (c' = AwaitLoad \<longrightarrow> c = AwaitLoad \<or> session w' \<noteq> None)
   \<and> downloads w' = (if c = AwaitCacheGet \<and> c' = AwaitFetch then downloads w + 1 else downloads w)
   \<and> (c' = AwaitFetch \<longrightarrow> c = AwaitFetch \<or> c = AwaitCacheGet)
   \<and> (c' = AwaitCacheGet \<longrightarrow> c = AwaitCacheGet \<or> \<not> loading c)
   \<and> (c = AwaitTimer \<and> modelLoading w \<longrightarrow> c' = AwaitTimer)
   \<and> (c' = AwaitTimer \<longrightarrow> c = AwaitTimer \<or> (modelLoading w \<and> \<not> modelLoaded w))
   \<and> (c' = Running \<longrightarrow> c = Running)
   \<and> (\<forall>d'. c' = AwaitRead d' \<longrightarrow>
          (c = AwaitFetch \<and> consistent d') \<or> (\<exists>d. c = AwaitRead d \<and> (consistent d \<longrightarrow> consistent d')))
   \<and> (terminal c \<longrightarrow> c' = c)
   \<and> (c = AwaitLoad \<and> (\<exists>e. c' = Rejected e) \<longrightarrow> session w = None)"

definition coherent :: "pc list \<Rightarrow> world \<Rightarrow> bool" where
  "coherent cs w \<longleftrightarrow>
     (\<forall>i < length cs. \<forall>j < length cs. loading (cs ! i) \<and> loading (cs ! j) \<longrightarrow> i = j)
   \<and> (\<forall>i < length cs. loading (cs ! i) \<longrightarrow> modelLoading w \<and> \<not> modelLoaded w)
   \<and> (\<forall>i < length cs. cs ! i = AwaitLoad \<longrightarrow> session w \<noteq> None)
   \<and> (modelLoaded w \<longrightarrow> \<not> modelLoading w \<and> session w \<noteq> None)
   \<and> (\<not> modelLoaded w \<and> \<not> modelLoading w \<longrightarrow> downloads w = 0)
   \<and> (\<forall>i < length cs. cs ! i = AwaitCacheGet \<longrightarrow> downloads w = 0)
   \<and> downloads w \<le> 1
   \<and> (\<forall>i < length cs. cs ! i = AwaitTimer \<longrightarrow> modelLoading w \<or> modelLoaded w)
   \<and> (\<forall>i < length cs. \<forall>d. cs ! i = AwaitRead d \<longrightarrow> consistent d)"

definition stuck :: "world \<Rightarrow> bool" where
  "stuck w \<longleftrightarrow> modelLoading w \<and> \<not> modelLoaded w
     \<and> (\<forall>j < length (tasks w). \<not> loading (pc (tasks w ! j)))"

definition inv :: "world \<Rightarrow> bool" where
  "inv w \<longleftrightarrow> coherent (map pc (tasks w)) w
     \<and> (\<forall>i < length (tasks w). pc (tasks w ! i) \<noteq> Running)"


definition bound :: "pc \<Rightarrow> int" where
  "bound c = (case c of AwaitDecode \<Rightarrow> 2 | AwaitTimer \<Rightarrow> 10 | AwaitPreprocess \<Rightarrow> 15
                | AwaitRun \<Rightarrow> 35 | AwaitEncode \<Rightarrow> 90 | _ \<Rightarrow> 100)"

definition waiting_call :: "task \<Rightarrow> bool" where
  "waiting_call t \<longleftrightarrow> \<not> loading (pc t) \<and> pc t \<noteq> Running \<and> sorted_wrt (<) (progress t)
     \<and> (\<forall>p \<in> set (progress t). p \<le> bound (pc t))"


text \<open>
  The storage is absent, or no call into it throws: \<open>indexedDB.open\<close> returns its request
  and, when the database opens, \<open>db.transaction\<close> returns.
\<close>

definition no_throw :: "storage \<Rightarrow> bool" where
  "no_throw idb \<longleftrightarrow>
     (case idb of
        None \<Rightarrow> True
      | Some db \<Rightarrow> opens db = OpenError \<or> (opens db = OpenSuccess \<and> transaction_ok db))"


section \<open>Properties of the rounding\<close>

lemma pow2_powr: "pow2 e = 2 powr (of_int e)"
proof (cases "0 \<le> e")
  case True
  then have "2 powr (of_int e) = (2::real) powr (real (nat e))" by simp
  also have "\<dots> = 2 ^ nat e" by (rule powr_realpow) simp
  finally show ?thesis using True by (simp add: pow2_def)
next
  case False
  then have "(2::real) powr (of_int e) = 2 powr (- real (nat (- e)))" by simp
  also have "\<dots> = 1 / 2 powr (real (nat (- e)))" by (simp add: powr_minus_divide)
  also have "2 powr (real (nat (- e))) = (2::real) ^ nat (- e)" by (rule powr_realpow) simp
  finally show ?thesis using False by (simp add: pow2_def)
qed

lemma pow2_pos [simp]: "0 < pow2 e"
  by (simp add: pow2_def)

lemma round_even_int [simp]: "round_even (of_int n) = n"
  by (simp add: round_even_def)

lemma round_even_le:
  assumes "y \<le> of_int N"
  shows "round_even y \<le> N"
proof -
  have f: "\<lfloor>y\<rfloor> \<le> N" using assms by (simp add: floor_le_iff)
  show ?thesis
  proof (cases "\<lfloor>y\<rfloor> = N")
    case True
    then have "y - of_int \<lfloor>y\<rfloor> \<le> 0" using assms by simp
    then show ?thesis using True by (simp add: round_even_def Let_def)
  next
    case False
    with f have "\<lfloor>y\<rfloor> + 1 \<le> N" by simp
    with f show ?thesis by (auto simp add: round_even_def Let_def)
  qed
qed

lemma round_even_ge:
  assumes "of_int N \<le> y"
  shows "N \<le> round_even y"
proof -
  have "N \<le> \<lfloor>y\<rfloor>" using assms by (simp add: le_floor_iff)
  then show ?thesis by (auto simp add: round_even_def Let_def)
qed


lemma pow2_neg:
  assumes "e \<le> 0"
  shows "pow2 e = 1 / 2 ^ nat (- e)"
  using assms by (cases "e = 0") (simp_all add: pow2_def)

lemma floor_log2_less:
  assumes "0 < x" and "x < 2 ^ p"
  shows "\<lfloor>log 2 x\<rfloor> < int p"
proof -
  have "x < 2 powr (real p)"
    using assms(2) by (simp add: powr_realpow)
  then have "log 2 x < real p"
    using assms(1) by (simp add: log_less_iff)
  then show ?thesis
    by (simp add: floor_less_iff)
qed

lemma round_binary_le:
  assumes "x \<le> of_int N" and "0 \<le> N" and "N < 2 ^ p" and "emin \<le> 0" and "0 < p"
  shows "round_binary p emin x \<le> of_int N"
proof (cases "0 < x")
  case False
  then have "x / pow2 e \<le> of_int 0" for e
    by (simp add: divide_le_0_iff less_imp_le)
  then have "round_even (x / pow2 e) \<le> 0" for e
    by (rule round_even_le)
  then have "of_int (round_even (x / pow2 e)) * pow2 e \<le> 0" for e
    by (simp add: mult_le_0_iff less_imp_le)
  then have "of_int (round_even (x / pow2 e)) * pow2 e \<le> of_int N" for e
    using assms(2) by (meson of_int_0_le_iff order_trans)
  with assms(2) show ?thesis
    by (simp add: round_binary_def Let_def)
next
  case True
  define e where "e = max \<lfloor>log 2 \<bar>x\<bar>\<rfloor> emin - (int p - 1)"
  define j where "j = nat (- e)"
  have "x < 2 ^ p"
  proof -
    have "x \<le> real_of_int N" by (rule assms(1))
    also have "\<dots> < real_of_int (2 ^ p)" using assms(3) by (simp only: of_int_less_iff)
    finally show ?thesis by simp
  qed
  with True have "\<lfloor>log 2 \<bar>x\<bar>\<rfloor> < int p"
    using floor_log2_less [of x p] by simp
  with assms(4,5) have e0: "e \<le> 0"
    by (simp add: e_def)
  then have pe: "pow2 e = 1 / 2 ^ j"
    by (simp add: pow2_neg j_def)
  have "x / pow2 e = x * 2 ^ j"
    by (simp add: pe)
  also have "\<dots> \<le> of_int N * 2 ^ j"
    using assms(1) by (simp add: mult_right_mono)
  also have "\<dots> = of_int (N * 2 ^ j)"
    by simp
  finally have "round_even (x / pow2 e) \<le> N * 2 ^ j"
    by (rule round_even_le)
  then have "real_of_int (round_even (x / pow2 e)) \<le> real_of_int (N * 2 ^ j)"
    by (simp only: of_int_le_iff)
  then have "of_int (round_even (x / pow2 e)) * pow2 e \<le> of_int N"
    by (simp add: pe field_simps)
  with True show ?thesis
    by (simp add: round_binary_def Let_def e_def)
qed

lemma round_binary_nonneg:
  assumes "0 \<le> x"
  shows "0 \<le> round_binary p emin x"
proof -
  have "of_int 0 \<le> x / pow2 e" for e
    using assms pow2_pos [of e] by (simp add: divide_nonneg_pos)
  then have "0 \<le> round_even (x / pow2 e)" for e
    by (rule round_even_ge)
  then have "0 \<le> real_of_int (round_even (x / pow2 e)) * pow2 e" for e
    using pow2_pos [of e] by (simp add: mult_nonneg_nonneg less_imp_le)
  then show ?thesis
    by (simp add: round_binary_def Let_def)
qed

lemma round_binary_int:
  assumes "\<bar>m\<bar> < 2 ^ p" and "emin \<le> 0" and "0 < p"
  shows "round_binary p emin (of_int m) = of_int m"
proof (cases "m = 0")
  case True
  then show ?thesis by (simp add: round_binary_def)
next
  case False
  define x :: real where "x = of_int m"
  define e where "e = max \<lfloor>log 2 \<bar>x\<bar>\<rfloor> emin - (int p - 1)"
  define j where "j = nat (- e)"
  have ax: "\<bar>x\<bar> = of_int \<bar>m\<bar>" by (simp add: x_def)
  have pos: "0 < \<bar>x\<bar>" using False by (simp add: x_def)
  have "\<bar>x\<bar> < 2 ^ p"
  proof -
    have "real_of_int \<bar>m\<bar> < real_of_int (2 ^ p)" using assms(1) by (simp only: of_int_less_iff)
    then show ?thesis by (simp add: ax)
  qed
  with pos have "\<lfloor>log 2 \<bar>x\<bar>\<rfloor> < int p"
    by (rule floor_log2_less)
  with assms(2,3) have e0: "e \<le> 0"
    by (simp add: e_def)
  then have pe: "pow2 e = 1 / 2 ^ j"
    by (simp add: pow2_neg j_def)
  have "x / pow2 e = of_int (m * 2 ^ j)"
    by (simp add: pe x_def)
  then have "round_even (x / pow2 e) = m * 2 ^ j"
    by (simp only: round_even_int)
  then have "of_int (round_even (x / pow2 e)) * pow2 e = x"
    by (simp add: pe x_def)
  with False show ?thesis
    by (simp add: round_binary_def Let_def e_def x_def)
qed

lemma round_binary_eval:
  assumes "pow2 k \<le> \<bar>x\<bar>" and "\<bar>x\<bar> < pow2 (k + 1)" and "emin \<le> k"
  shows "round_binary p emin x =
           of_int (round_even (x / pow2 (k - (int p - 1)))) * pow2 (k - (int p - 1))"
proof -
  have pos: "0 < \<bar>x\<bar>"
    using assms(1) pow2_pos [of k] by linarith
  have "\<lfloor>log 2 \<bar>x\<bar>\<rfloor> = k"
    using assms(1,2) pos by (simp add: floor_log_eq_powr_iff pow2_powr)
  with pos assms(3) show ?thesis
    by (simp add: round_binary_def Let_def max_def)
qed

lemma b64_15_22: "binary64 (15 / 22) = 6141272219141585 / 9007199254740992"
  unfolding binary64_def
  by (subst round_binary_eval [where k = "- 1"]) (simp_all add: pow2_def round_even_def Let_def)

lemma b64_15: "binary64 (6141272219141585 / 9007199254740992 * 22) = 8444249301319679 / 562949953421312"
  unfolding binary64_def
  by (subst round_binary_eval [where k = 3]) (simp_all add: pow2_def round_even_def Let_def)

lemma b64_51: "fround (binary64 (51 / 255)) = 13421773 / 67108864"
proof -
  have a: "binary64 (51 / 255) = 3602879701896397 / 18014398509481984"
    unfolding binary64_def
    by (subst round_binary_eval [where k = "- 3"]) (simp_all add: pow2_def round_even_def Let_def)
  have b: "fround (3602879701896397 / 18014398509481984) = 13421773 / 67108864"
    unfolding fround_def
    by (subst round_binary_eval [where k = "- 3"]) (simp_all add: pow2_def round_even_def Let_def)
  show ?thesis unfolding a by (rule b)
qed


lemma pow2_mono:
  assumes "a \<le> b"
  shows "pow2 a \<le> pow2 b"
  using assms by (simp add: pow2_powr)

lemma round_even_le_half: "real_of_int (round_even y) \<le> y + 1 / 2"
proof -
  have "real_of_int \<lfloor>y\<rfloor> \<le> y" by simp
  then show ?thesis
    by (simp add: round_even_def Let_def) linarith
qed

lemma round_binary_abs_le:
  assumes "0 < x" and "x < pow2 j" and "emin < j"
  shows "round_binary p emin x \<le> x + pow2 (j - int p) / 2"
proof -
  define e where "e = max \<lfloor>log 2 \<bar>x\<bar>\<rfloor> emin - (int p - 1)"
  have "x < 2 powr (of_int j)"
    using assms(2) by (simp add: pow2_powr)
  then have "log 2 x < of_int j"
    using assms(1) by (simp add: log_less_iff)
  then have "\<lfloor>log 2 x\<rfloor> < j"
    by (simp add: floor_less_iff)
  with assms(1,3) have "e \<le> j - int p"
    by (simp add: e_def)
  then have u: "pow2 e \<le> pow2 (j - int p)"
    by (rule pow2_mono)
  have "real_of_int (round_even (x / pow2 e)) * pow2 e \<le> (x / pow2 e + 1 / 2) * pow2 e"
    using round_even_le_half [of "x / pow2 e"] pow2_pos [of e]
    by (simp only: mult_le_cancel_right_pos)
  also have "\<dots> = x + pow2 e / 2"
  proof -
    have "pow2 e \<noteq> 0" by (simp add: pow2_def)
    then show ?thesis by (simp add: field_simps)
  qed
  also have "\<dots> \<le> x + pow2 (j - int p) / 2"
    using u by simp
  finally show ?thesis
    using assms(1) by (simp add: round_binary_def Let_def e_def)
qed

lemma binary64_0 [simp]: "binary64 0 = 0"
  by (simp add: binary64_def round_binary_def)

lemma binary64_int:
  assumes "\<bar>m\<bar> < 2 ^ 53"
  shows "binary64 (of_int m) = of_int m"
  unfolding binary64_def using assms by (intro round_binary_int) simp_all

lemma binary64_nat:
  assumes "n < 2 ^ 53"
  shows "binary64 (real n) = real n"
  using binary64_int [of "int n"] assms by simp

lemma binary64_nonneg:
  assumes "0 \<le> x"
  shows "0 \<le> binary64 x"
  unfolding binary64_def using assms by (rule round_binary_nonneg)

lemma binary64_le_nat:
  assumes "x \<le> real N" and "N < 2 ^ 53"
  shows "binary64 x \<le> real N"
proof -
  have "round_binary 53 (- 1022) x \<le> of_int (int N)"
    using assms by (intro round_binary_le) simp_all
  then show ?thesis by (simp add: binary64_def)
qed

lemma fround_unit:
  assumes "0 \<le> x" and "x \<le> 1"
  shows "0 \<le> fround x \<and> fround x \<le> 1"
proof -
  have "round_binary 24 (- 126) x \<le> of_int 1"
    using assms by (intro round_binary_le) simp_all
  moreover have "0 \<le> round_binary 24 (- 126) x"
    using assms(1) by (rule round_binary_nonneg)
  ultimately show ?thesis by (simp add: fround_def)
qed

lemma binary64_less_one:
  assumes "0 < x" and "x < 1"
  shows "binary64 x \<le> x + 1 / 2 ^ 54"
proof -
  have "round_binary 53 (- 1022) x \<le> x + pow2 (0 - int 53) / 2"
    using assms by (intro round_binary_abs_le) (simp_all add: pow2_def)
  then show ?thesis
    by (simp add: binary64_def pow2_def)
qed

lemma binary64_less_2_26:
  assumes "0 < x" and "x < 2 ^ 26"
  shows "binary64 x \<le> x + 1 / 2 ^ 28"
proof -
  have "round_binary 53 (- 1022) x \<le> x + pow2 (26 - int 53) / 2"
    using assms by (intro round_binary_abs_le) (simp_all add: pow2_def)
  then show ?thesis
    by (simp add: binary64_def pow2_def)
qed

lemma binary64_numeral:
  assumes "numeral n < (2::nat) ^ 53"
  shows "binary64 (numeral n) = numeral n"
  using binary64_nat [of "numeral n"] assms by simp

lemma binary64_1 [simp]: "binary64 1 = 1"
  using binary64_nat [of 1] by simp

lemma round_even_eqI:
  assumes "of_int N - 1 / 2 < y" and "y < of_int N + 1 / 2"
  shows "round_even y = N"
proof -
  have "N - 1 \<le> \<lfloor>y\<rfloor>" using assms(1) by (simp add: le_floor_iff)
  moreover have "\<lfloor>y\<rfloor> \<le> N" using assms(2) by (simp add: floor_le_iff)
  ultimately consider "\<lfloor>y\<rfloor> = N - 1" | "\<lfloor>y\<rfloor> = N" by linarith
  then show ?thesis
  proof cases
    case 1
    then show ?thesis using assms(1) by (simp add: round_even_def Let_def)
  next
    case 2
    then show ?thesis using assms(2) by (simp add: round_even_def Let_def)
  qed
qed

lemma b64_sqrt5: "binary64 (sqrt 5) = 5035177455121576 / 2251799813685248"
proof -
  have lo: "10070354910243151 / 4503599627370496 < sqrt 5"
    by (rule real_less_rsqrt) (simp add: power2_eq_square)
  have hi: "sqrt 5 < 10070354910243153 / 4503599627370496"
    by (rule real_less_lsqrt) (simp_all add: power2_eq_square)
  have r: "round_even (sqrt 5 / pow2 (1 - (int 53 - 1))) = 5035177455121576"
    using lo hi by (intro round_even_eqI) (simp_all add: pow2_def)
  have "binary64 (sqrt 5) =
          of_int (round_even (sqrt 5 / pow2 (1 - (int 53 - 1)))) * pow2 (1 - (int 53 - 1))"
    unfolding binary64_def using lo hi
    by (intro round_binary_eval) (simp_all add: pow2_def)
  then show ?thesis
    unfolding r by (simp add: pow2_def)
qed


section \<open>Properties of the preprocessor\<close>

lemma length_preprocess_step [simp]:
  "length (preprocess_step n data t i) = length t"
  by (simp add: preprocess_step_def)

lemma length_preprocess_loop [simp]:
  "length (preprocess_loop n data t k) = length t"
  by (induction k) (simp_all add: preprocess_loop_def)

lemma preprocess_loop_Suc:
  "preprocess_loop n data t (Suc k) = preprocess_step n data (preprocess_loop n data t k) k"
  by (simp add: preprocess_loop_def)

lemma preprocess_loop_nth:
  assumes "length t = 3 * n" and "k \<le> n" and "j < 3 * n"
  shows "preprocess_loop n data t k ! j =
           (if j < k then div255 (typed_read data (j * 4))
            else if n \<le> j \<and> j < n + k then div255 (typed_read data ((j - n) * 4 + 1))
            else if 2 * n \<le> j \<and> j < 2 * n + k then div255 (typed_read data ((j - 2 * n) * 4 + 2))
            else t ! j)"
  using assms(2)
proof (induction k)
  case 0
  show ?case by (auto simp add: preprocess_loop_def)
next
  case (Suc k)
  then have k: "k < n" and IH: "preprocess_loop n data t k ! j =
           (if j < k then div255 (typed_read data (j * 4))
            else if n \<le> j \<and> j < n + k then div255 (typed_read data ((j - n) * 4 + 1))
            else if 2 * n \<le> j \<and> j < 2 * n + k then div255 (typed_read data ((j - 2 * n) * 4 + 2))
            else t ! j)"
    by simp_all
  have len: "length (preprocess_loop n data t k) = 3 * n"
    using assms(1) by simp
  consider "j = k" | "j = n + k" | "j = 2 * n + k" | "j \<noteq> k" "j \<noteq> n + k" "j \<noteq> 2 * n + k"
    by blast
  then show ?case
  proof cases
    case 1
    with k assms(3) len show ?thesis
      by (simp add: preprocess_loop_Suc preprocess_step_def nth_list_update)
  next
    case 2
    with k assms(3) len show ?thesis
      by (simp add: preprocess_loop_Suc preprocess_step_def nth_list_update)
  next
    case 3
    with k assms(3) len show ?thesis
      by (simp add: preprocess_loop_Suc preprocess_step_def nth_list_update)
  next
    case 4
    with k assms(3) len IH show ?thesis
      by (auto simp add: preprocess_loop_Suc preprocess_step_def nth_list_update)
  qed
qed


lemma preprocess_full_nth:
  assumes "length data = 4 * n" and "i < n"
  shows "preprocess_loop n data (replicate (3 * n) (Num 0)) n ! i =
           Num (fround (js_div (real (unat (data ! (4 * i)))) 255))"
    and "preprocess_loop n data (replicate (3 * n) (Num 0)) n ! (n + i) =
           Num (fround (js_div (real (unat (data ! (4 * i + 1)))) 255))"
    and "preprocess_loop n data (replicate (3 * n) (Num 0)) n ! (2 * n + i) =
           Num (fround (js_div (real (unat (data ! (4 * i + 2)))) 255))"
  using assms
  by (simp_all add: preprocess_loop_nth typed_read_def div255_def mult.commute)

lemma preprocess_full_cases:
  assumes "length data = 4 * n" and "j < 3 * n"
  shows "\<exists>k < 4 * n. preprocess_loop n data (replicate (3 * n) (Num 0)) n ! j =
           Num (fround (js_div (real (unat (data ! k))) 255))"
proof -
  consider "j < n" | "n \<le> j" "j < 2 * n" | "2 * n \<le> j"
    by linarith
  then show ?thesis
  proof cases
    case 1
    then have "preprocess_loop n data (replicate (3 * n) (Num 0)) n ! j =
           Num (fround (js_div (real (unat (data ! (4 * j)))) 255))"
      using preprocess_full_nth(1) [OF assms(1), of j] by simp
    moreover have "4 * j < 4 * n" using 1 by simp
    ultimately show ?thesis by blast
  next
    case 2
    then have "preprocess_loop n data (replicate (3 * n) (Num 0)) n ! (n + (j - n)) =
           Num (fround (js_div (real (unat (data ! (4 * (j - n) + 1)))) 255))"
      using preprocess_full_nth(2) [OF assms(1), of "j - n"] by simp
    moreover have "4 * (j - n) + 1 < 4 * n" using 2 by simp
    moreover have "n + (j - n) = j" using 2 by simp
    ultimately show ?thesis by metis
  next
    case 3
    then have "preprocess_loop n data (replicate (3 * n) (Num 0)) n ! (2 * n + (j - 2 * n)) =
           Num (fround (js_div (real (unat (data ! (4 * (j - 2 * n) + 2)))) 255))"
      using preprocess_full_nth(3) [OF assms(1), of "j - 2 * n"] assms(2) by simp
    moreover have "4 * (j - 2 * n) + 2 < 4 * n" using 3 assms(2) by simp
    moreover have "2 * n + (j - 2 * n) = j" using 3 by simp
    ultimately show ?thesis by metis
  qed
qed

lemma div255_unit:
  "0 \<le> fround (js_div (real (unat (b :: byte))) 255)
   \<and> fround (js_div (real (unat b)) 255) \<le> 1"
proof -
  have "unat b < 2 ^ 8"
    using unsigned_less [of b] by simp
  then have "unat b \<le> 255"
    by simp
  then have "real (unat b) \<le> 255"
    by (metis of_nat_le_iff of_nat_numeral)
  moreover have "0 \<le> real (unat b)"
    by (rule of_nat_0_le_iff)
  ultimately have q: "0 \<le> real (unat b) / 255" "real (unat b) / 255 \<le> real 1"
    by simp_all
  have "0 \<le> js_div (real (unat b)) 255"
    unfolding js_div_def using q(1) by (rule binary64_nonneg)
  moreover have "js_div (real (unat b)) 255 \<le> 1"
    unfolding js_div_def using binary64_le_nat [OF q(2)] by simp
  ultimately show ?thesis
    by (rule fround_unit)
qed

lemma div255_51:
  "fround (js_div 51 255) = 13421773 / 67108864"
  by (simp only: js_div_def b64_51)

lemma preprocess_loop_cong:
  assumes "length data = 4 * n" and "length data' = 4 * n" and "length t = 3 * n"
    and "\<And>i c. i < n \<Longrightarrow> c < 3 \<Longrightarrow> data' ! (4 * i + c) = data ! (4 * i + c)"
  shows "preprocess_loop n data' t n = preprocess_loop n data t n"
proof (rule nth_equalityI)
  show "length (preprocess_loop n data' t n) = length (preprocess_loop n data t n)"
    by simp
next
  fix j
  assume "j < length (preprocess_loop n data' t n)"
  then have j: "j < 3 * n" using assms(3) by simp
  have r: "typed_read data' (i * 4) = typed_read data (i * 4)"
       "typed_read data' (i * 4 + 1) = typed_read data (i * 4 + 1)"
       "typed_read data' (i * 4 + 2) = typed_read data (i * 4 + 2)" if "i < n" for i
    using that assms(1,2) assms(4) [of i 0] assms(4) [of i 1] assms(4) [of i 2]
    by (simp_all add: typed_read_def mult.commute)
  show "preprocess_loop n data' t n ! j = preprocess_loop n data t n ! j"
    using j r [of j] r [of "j - n"] r [of "j - 2 * n"]
    by (auto simp add: preprocess_loop_nth [OF assms(3) order_refl j])
qed

section \<open>Properties of the compositor's loops\<close>

lemma length_pixel_step [simp]:
  "length (pixel_step w h maskData maskSize y data x) = length data"
  by (simp add: pixel_step_def)

lemma length_row_loop [simp]:
  "length (row_loop w h maskData maskSize k data y) = length data"
  by (induction k) (simp_all add: row_loop_def)

lemma length_mask_loop [simp]:
  "length (mask_loop w h maskData maskSize k data) = length data"
  by (induction k) (simp_all add: mask_loop_def)

lemma row_loop_Suc:
  "row_loop w h maskData maskSize (Suc k) data y =
     pixel_step w h maskData maskSize y (row_loop w h maskData maskSize k data y) k"
  by (simp add: row_loop_def)

lemma mask_loop_Suc:
  "mask_loop w h maskData maskSize (Suc k) data =
     row_loop w h maskData maskSize w (mask_loop w h maskData maskSize k data) k"
  by (simp add: mask_loop_def)

lemma alpha_index_iff:
  fixes j y w k :: nat
  assumes "k < w"
  shows "j = (y * w + k) * 4 + 3 \<longleftrightarrow> j mod 4 = 3 \<and> j div 4 div w = y \<and> j div 4 mod w = k"
proof
  assume j: "j = (y * w + k) * 4 + 3"
  then have "j div 4 = y * w + k" and "j mod 4 = 3"
    by presburger+
  with assms show "j mod 4 = 3 \<and> j div 4 div w = y \<and> j div 4 mod w = k"
    by simp
next
  assume h: "j mod 4 = 3 \<and> j div 4 div w = y \<and> j div 4 mod w = k"
  have "j = j div 4 * 4 + j mod 4"
    by simp
  also have "j div 4 = j div 4 div w * w + j div 4 mod w"
    by simp
  finally show "j = (y * w + k) * 4 + 3"
    using h by simp
qed

lemma row_loop_nth:
  assumes "k \<le> w"
  shows "row_loop w h maskData maskSize k data y ! j =
           (if j < length data \<and> j mod 4 = 3 \<and> j div 4 div w = y \<and> j div 4 mod w < k
            then pixel_alpha w h maskData maskSize (j div 4 mod w) y
            else data ! j)"
  using assms
proof (induction k)
  case 0
  show ?case by (simp add: row_loop_def)
next
  case (Suc k)
  then have k: "k < w" by simp
  let ?d = "row_loop w h maskData maskSize k data y"
  have IH: "?d ! j =
           (if j < length data \<and> j mod 4 = 3 \<and> j div 4 div w = y \<and> j div 4 mod w < k
            then pixel_alpha w h maskData maskSize (j div 4 mod w) y
            else data ! j)"
    using Suc by simp
  have step: "row_loop w h maskData maskSize (Suc k) data y =
                ?d[(y * w + k) * 4 + 3 := pixel_alpha w h maskData maskSize k y]"
    by (simp add: row_loop_Suc pixel_step_def)
  show ?case
  proof (cases "j = (y * w + k) * 4 + 3")
    case True
    then have idx: "j mod 4 = 3 \<and> j div 4 div w = y \<and> j div 4 mod w = k"
      using alpha_index_iff [OF k] by blast
    show ?thesis
    proof (cases "j < length data")
      case True
      with \<open>j = (y * w + k) * 4 + 3\<close> idx show ?thesis
        by (simp add: step)
    next
      case False
      with \<open>j = (y * w + k) * 4 + 3\<close> have "row_loop w h maskData maskSize (Suc k) data y = ?d"
        by (simp add: step list_update_beyond)
      with False IH show ?thesis by simp
    qed
  next
    case False
    then have nidx: "\<not> (j mod 4 = 3 \<and> j div 4 div w = y \<and> j div 4 mod w = k)"
      using alpha_index_iff [OF k] by blast
    from False have "row_loop w h maskData maskSize (Suc k) data y ! j = ?d ! j"
      by (simp add: step)
    with IH nidx show ?thesis
      by (auto simp add: less_Suc_eq)
  qed
qed

lemma mask_loop_nth:
  assumes "k \<le> h"
  shows "mask_loop w h maskData maskSize k data ! j =
           (if j < length data \<and> j mod 4 = 3 \<and> j div 4 div w < k \<and> 0 < w
            then pixel_alpha w h maskData maskSize (j div 4 mod w) (j div 4 div w)
            else data ! j)"
  using assms
proof (induction k)
  case 0
  show ?case by (simp add: mask_loop_def)
next
  case (Suc k)
  let ?d = "mask_loop w h maskData maskSize k data"
  have IH: "?d ! j =
           (if j < length data \<and> j mod 4 = 3 \<and> j div 4 div w < k \<and> 0 < w
            then pixel_alpha w h maskData maskSize (j div 4 mod w) (j div 4 div w)
            else data ! j)"
    using Suc by simp
  have "mask_loop w h maskData maskSize (Suc k) data ! j =
          (if j < length data \<and> j mod 4 = 3 \<and> j div 4 div w = k \<and> j div 4 mod w < w
           then pixel_alpha w h maskData maskSize (j div 4 mod w) k
           else ?d ! j)"
    by (simp add: mask_loop_Suc row_loop_nth)
  with IH show ?case
    by (auto simp add: less_Suc_eq)
qed

lemma mask_loop_alpha:
  assumes "length data = 4 * w * h" and "x < w" and "y < h"
  shows "mask_loop w h maskData maskSize h data ! (4 * (y * w + x) + 3) =
           pixel_alpha w h maskData maskSize x y"
proof -
  let ?j = "(y * w + x) * 4 + 3"
  have idx: "?j mod 4 = 3 \<and> ?j div 4 div w = y \<and> ?j div 4 mod w = x"
    using alpha_index_iff [OF assms(2), of ?j y] by blast
  have "y * w + x < (y + 1) * w"
    using assms(2) by simp
  also have "\<dots> \<le> h * w"
    using assms(3) by (intro mult_le_mono1) simp
  finally have "?j < length data"
    using assms(1) by (simp add: mult.commute)
  with idx assms(2,3) have "mask_loop w h maskData maskSize h data ! ?j =
           pixel_alpha w h maskData maskSize x y"
    by (simp add: mask_loop_nth)
  then show ?thesis
    by (simp add: mult.commute)
qed

lemma mask_loop_rgb:
  assumes "c < 3"
  shows "mask_loop w h maskData maskSize h data ! (4 * p + c) = data ! (4 * p + c)"
proof -
  have "(4 * p + c) mod 4 = c"
    using assms by simp
  with assms show ?thesis
    by (simp add: mask_loop_nth)
qed


lemma typed_read_num_nat:
  "typed_read_num xs (real n) = typed_read xs n"
  by (simp add: typed_read_num_def typed_read_def)

lemma mask_scale_bound:
  fixes x w M :: nat
  assumes "x < w" and "w < 2 ^ 27" and "0 < M" and "M < 2 ^ 26"
  shows "0 \<le> js_mul (js_div (real x) (real w)) (real M)"
    and "js_mul (js_div (real x) (real w)) (real M) < real M"
proof -
  define r where "r = real x / real w"
  define q where "q = binary64 r"
  have w0: "0 < real w" using assms(1) by simp
  have r0: "0 \<le> r" by (simp add: r_def)
  have q0: "0 \<le> q" unfolding q_def using r0 by (rule binary64_nonneg)
  show "0 \<le> js_mul (js_div (real x) (real w)) (real M)"
    unfolding js_mul_def js_div_def r_def [symmetric] q_def [symmetric]
    using q0 by (intro binary64_nonneg) simp
  have M1: "1 \<le> real M" using assms(3) by simp
  have "real x + 1 \<le> real w" using assms(1) by linarith
  then have "(real x + 1) / real w \<le> 1" using w0 by simp
  then have r1: "r + 1 / real w \<le> 1" by (simp add: r_def add_divide_distrib)
  have "real w < 2 ^ 27" using assms(2) by (metis of_nat_less_iff of_nat_numeral of_nat_power)
  then have iw: "1 / 2 ^ 27 < 1 / real w" using w0 by (simp add: divide_strict_left_mono)
  have rlt: "r < 1" using r1 w0 iw by (smt (verit) divide_pos_pos zero_less_one)
  have qb: "q \<le> r + 1 / 2 ^ 54"
  proof (cases "r = 0")
    case True
    then show ?thesis by (simp add: q_def)
  next
    case False
    with r0 have "0 < r" by simp
    then show ?thesis unfolding q_def using rlt by (rule binary64_less_one)
  qed
  have Mb: "real M < 2 ^ 26" using assms(4) by (metis of_nat_less_iff of_nat_numeral of_nat_power)
  have qlt: "q < 1 - 1 / 2 ^ 28" using qb r1 iw by simp
  have qM: "q * real M \<le> (1 - 1 / 2 ^ 28) * real M"
    using qlt M1 by (intro mult_right_mono) simp_all
  have "binary64 (q * real M) < real M"
  proof (cases "q * real M = 0")
    case True
    then show ?thesis using M1 by simp
  next
    case False
    with q0 M1 have pos: "0 < q * real M"
      by (simp add: zero_less_mult_iff)
    have "(1 - 1 / 2 ^ 28) * real M \<le> 1 * real M"
      using M1 by (intro mult_right_mono) simp_all
    with qM Mb have "q * real M < 2 ^ 26" by linarith
    with pos have "binary64 (q * real M) \<le> q * real M + 1 / 2 ^ 28"
      by (rule binary64_less_2_26)
    also have "\<dots> \<le> (r + 1 / 2 ^ 54) * real M + 1 / 2 ^ 28"
      using qb M1 by (simp add: mult_right_mono)
    also have "\<dots> < real M"
    proof -
      have "(r + 1 / 2 ^ 27) * real M < (r + 1 / real w) * real M"
        using iw M1 by (simp add: mult_strict_right_mono)
      also have "\<dots> \<le> 1 * real M"
        using r1 M1 by (intro mult_right_mono) simp_all
      finally have "r * real M + real M / 2 ^ 27 < real M" by (simp add: algebra_simps)
      moreover have "real M / 2 ^ 54 + 1 / 2 ^ 28 \<le> real M / 2 ^ 27" using M1 by simp
      ultimately show ?thesis by (simp add: algebra_simps)
    qed
    finally show ?thesis .
  qed
  then show "js_mul (js_div (real x) (real w)) (real M) < real M"
    by (simp add: js_mul_def js_div_def r_def q_def)
qed

lemma mask_scale_zero:
  "js_mul q 0 = 0"
  by (simp add: js_mul_def)

lemma mask_coord:
  fixes x w M :: nat
  assumes "x < w" and "w < 2 ^ 27" and "M < 2 ^ 26"
  shows "0 \<le> maskX_of w (real M) x" and "0 < M \<Longrightarrow> maskX_of w (real M) x < int M"
    and "M = 0 \<Longrightarrow> maskX_of w (real M) x = 0"
    and "0 \<le> maskY_of w (real M) x" and "0 < M \<Longrightarrow> maskY_of w (real M) x < int M"
    and "M = 0 \<Longrightarrow> maskY_of w (real M) x = 0"
proof -
  have z: "M = 0 \<Longrightarrow> \<lfloor>js_mul (js_div (real x) (real w)) (real M)\<rfloor> = 0"
    by (simp add: mask_scale_zero)
  have lt: "0 < M \<Longrightarrow> \<lfloor>js_mul (js_div (real x) (real w)) (real M)\<rfloor> < int M"
    using mask_scale_bound(2) [OF assms(1,2) _ assms(3)] by (simp add: floor_less_iff)
  have ge: "0 \<le> \<lfloor>js_mul (js_div (real x) (real w)) (real M)\<rfloor>"
  proof (cases "M = 0")
    case True
    then show ?thesis using z by simp
  next
    case False
    then show ?thesis
      using mask_scale_bound(1) [OF assms(1,2) _ assms(3)] by simp
  qed
  show "0 \<le> maskX_of w (real M) x" and "0 \<le> maskY_of w (real M) x"
    using ge by (simp_all add: maskX_of_def maskY_of_def Math_floor_def)
  show "0 < M \<Longrightarrow> maskX_of w (real M) x < int M"
    and "0 < M \<Longrightarrow> maskY_of w (real M) x < int M"
    using lt by (simp_all add: maskX_of_def maskY_of_def Math_floor_def)
  show "M = 0 \<Longrightarrow> maskX_of w (real M) x = 0" and "M = 0 \<Longrightarrow> maskY_of w (real M) x = 0"
    using z by (simp_all add: maskX_of_def maskY_of_def Math_floor_def)
qed

lemma whole_index_exact:
  fixes a b M :: nat
  assumes "M < 2 ^ 26" and "a \<le> M" and "b \<le> M"
  shows "js_add (js_mul (real a) (real M)) (real b) = real (a * M + b)"
proof -
  have "a * M \<le> M * M"
    using assms(2) by (rule mult_le_mono1)
  also have "M * M < 2 ^ 26 * 2 ^ 26"
    using assms(1) by (intro mult_strict_mono) simp_all
  finally have p: "a * M < 2 ^ 52"
    by simp
  then have "a * M < 2 ^ 53"
    by (rule less_trans) simp
  then have m: "js_mul (real a) (real M) = real (a * M)"
    using binary64_nat [of "a * M"] by (simp add: js_mul_def)
  have "b < 2 ^ 26"
    using assms(1,3) by simp
  then have "b < 2 ^ 52"
    by (rule less_trans) simp
  with p have "a * M + b < 2 ^ 52 + 2 ^ 52"
    by (rule add_strict_mono)
  then have "a * M + b < 2 ^ 53"
    by simp
  then show ?thesis
    using binary64_nat [of "a * M + b"] by (simp add: js_add_def m)
qed

lemma pixel_alpha_whole_side:
  fixes x y w h M :: nat
  assumes "x < w" and "y < h" and "w < 2 ^ 27" and "h < 2 ^ 27" and "M < 2 ^ 26"
  shows "pixel_alpha w h maskData (real M) x y =
     alpha_byte (or_zero (typed_read maskData
       (nat (maskY_of h (real M) y) * M + nat (maskX_of w (real M) x))))"
proof -
  define mx where "mx = nat (maskX_of w (real M) x)"
  define my where "my = nat (maskY_of h (real M) y)"
  have ix: "maskX_of w (real M) x = int mx" and iy: "maskY_of h (real M) y = int my"
    using mask_coord(1) [OF assms(1,3,5)] mask_coord(4) [OF assms(2,4,5)]
    by (simp_all add: mx_def my_def)
  have "mx \<le> M" and "my \<le> M"
    using mask_coord(2,3) [OF assms(1,3,5)] mask_coord(5,6) [OF assms(2,4,5)]
    by (cases "M = 0"; simp add: mx_def my_def)+
  then have "js_add (js_mul (real my) (real M)) (real mx) = real (my * M + mx)"
    using assms(5) by (intro whole_index_exact)
  then have "maskIdx_of w h (real M) x y = real (my * M + mx)"
    by (simp add: maskIdx_of_def ix iy)
  then show ?thesis
    by (simp only: pixel_alpha_def typed_read_num_nat mx_def my_def)
qed

lemma Math_sqrt_square:
  assumes "M < 2 ^ 26"
  shows "Math_sqrt (real (M * M)) = real M"
proof -
  have "M < 2 ^ 53" using assms by (rule less_trans) simp
  then show ?thesis by (simp add: Math_sqrt_def binary64_nat)
qed


lemma alpha_byte_unit:
  assumes "0 \<le> v" and "v \<le> 1"
  shows "uint (alpha_byte (Num v)) = Math_round (js_mul v 255)"
proof -
  have "0 \<le> v * 255" and "v * 255 \<le> real 255"
    using assms by simp_all
  then have v0: "0 \<le> js_mul v 255" and v1: "js_mul v 255 \<le> 255"
    using binary64_nonneg [of "v * 255"] binary64_le_nat [of "v * 255" 255]
    by (simp_all add: js_mul_def)
  have lo: "0 \<le> Math_round (js_mul v 255)"
    using v0 by (simp add: Math_round_def)
  have "js_mul v 255 + 1 / 2 < 256"
    using v1 by simp
  then have hi: "Math_round (js_mul v 255) \<le> 255"
    unfolding Math_round_def by (simp add: floor_less_iff)
  from lo hi have "max 0 (min 255 (Math_round (js_mul v 255))) = Math_round (js_mul v 255)"
    by simp
  moreover have "uint (word_of_int (Math_round (js_mul v 255)) :: byte) = Math_round (js_mul v 255)"
    using lo hi by (simp add: uint_word_of_int take_bit_int_eq_self)
  ultimately show ?thesis
    by (simp add: alpha_byte_def toUint8Clamp_def)
qed

lemma alpha_byte_one:
  "alpha_byte (Num 1) = 255"
  by (simp add: alpha_byte_def js_mul_def binary64_numeral Math_round_def toUint8Clamp_def)

lemma alpha_byte_zero:
  "alpha_byte (Num 0) = 0"
  by (simp add: alpha_byte_def js_mul_def Math_round_def toUint8Clamp_def)

lemma mask_cell_15_22:
  "\<lfloor>js_mul (js_div 15 22) 22\<rfloor> = 14"
  unfolding js_div_def js_mul_def b64_15_22 b64_15 by simp

lemma binary64_half:
  "binary64 (1 / 2) = 1 / 2"
  unfolding binary64_def
  by (subst round_binary_eval [where k = "- 1"]) (simp_all add: pow2_def round_even_def Let_def)

lemma sqrt5_bounds:
  "2 < sqrt 5" "sqrt 5 < 3"
  by (rule real_less_rsqrt, simp) (rule real_less_lsqrt, simp_all)

lemma floor_sqrt5:
  "\<lfloor>sqrt 5\<rfloor> = 2"
  using sqrt5_bounds by (simp add: floor_eq_iff)

lemma Math_sqrt_5:
  "Math_sqrt 5 = 629397181890197 / 281474976710656"
  by (simp add: Math_sqrt_def b64_sqrt5)

lemma binary64_sqrt5:
  "binary64 (629397181890197 / 281474976710656) = 629397181890197 / 281474976710656"
  unfolding binary64_def
  by (subst round_binary_eval [where k = 1]) (simp_all add: pow2_def round_even_def Let_def)

lemma binary64_half_sqrt5:
  "binary64 (629397181890197 / 562949953421312) = 629397181890197 / 562949953421312"
  unfolding binary64_def
  by (subst round_binary_eval [where k = 0]) (simp_all add: pow2_def round_even_def Let_def)

lemma sqrt5_cells:
  "maskX_of 1 (Math_sqrt 5) 0 = 0" "maskY_of 2 (Math_sqrt 5) 0 = 0"
  "maskY_of 2 (Math_sqrt 5) 1 = 1"
  unfolding maskX_of_def maskY_of_def js_mul_def js_div_def Math_floor_def Math_sqrt_5
  by (simp_all add: binary64_half binary64_half_sqrt5)

lemma sqrt5_indices:
  "maskIdx_of 1 2 (Math_sqrt 5) 0 0 = 0"
  "maskIdx_of 1 2 (Math_sqrt 5) 0 1 = 629397181890197 / 281474976710656"
  unfolding maskIdx_of_def sqrt5_cells js_add_def js_mul_def
  unfolding Math_sqrt_5 by (simp_all add: binary64_sqrt5)

lemma upt_small:
  "[0..<2] = [0, 1]" "[0..<1] = [0]"
  by (simp_all add: upt_rec)

section \<open>Properties of the model fetcher and the cache\<close>

lemma copy_chunks_concat:
  "offset + length (concat cs) \<le> length buf \<Longrightarrow>
     copy_chunks cs buf offset =
       Inr (take offset buf @ concat cs @ drop (offset + length (concat cs)) buf)"
proof (induction cs arbitrary: buf offset)
  case Nil
  then show ?case by simp
next
  case (Cons c cs)
  let ?buf' = "take offset buf @ c @ drop (offset + length c) buf"
  have fit: "offset + length c \<le> length buf"
    using Cons.prems by simp
  then have set: "typed_set buf c offset = Inr ?buf'"
    by (simp add: typed_set_def)
  have len: "length ?buf' = length buf"
    using fit by simp
  have "copy_chunks cs ?buf' (offset + length c) =
          Inr (take (offset + length c) ?buf' @ concat cs
                 @ drop (offset + length c + length (concat cs)) ?buf')"
    using Cons.prems len by (intro Cons.IH) simp
  moreover have "take (offset + length c) ?buf' = take offset buf @ c"
    using fit by simp
  moreover have "drop (offset + length c + length (concat cs)) ?buf'
                   = drop (offset + length c + length (concat cs)) buf"
    using fit by (simp add: add.commute add.left_commute)
  ultimately show ?case
    using set by (simp add: add.assoc)
qed

lemma assemble_concat:
  assumes "downloadedSize d = length (concat (chunks d))"
  shows "assemble d = Inr (concat (chunks d))"
  using copy_chunks_concat [of 0 "chunks d" "replicate (downloadedSize d) 0"] assms
  by (simp add: assemble_def)

lemma on_chunk_fields:
  "chunks (fst (on_chunk v d)) = chunks d @ [v]"
  "downloadedSize (fst (on_chunk v d)) = downloadedSize d + length v"
  "totalSize (fst (on_chunk v d)) = totalSize d"
  by (simp_all add: on_chunk_def Let_def split: option.splits)

lemma read_loop_chunks:
  "\<exists>d' ps'. read_loop (map Chunk cs @ rs) d ps = read_loop rs d' ps'
      \<and> chunks d' = chunks d @ cs
      \<and> downloadedSize d' = downloadedSize d + length (concat cs)
      \<and> totalSize d' = totalSize d"
proof (induction cs arbitrary: d ps)
  case Nil
  show ?case by (intro exI [of _ d] exI [of _ ps]) simp
next
  case (Cons c cs)
  obtain d1 p where oc: "on_chunk c d = (d1, p)"
    by (cases "on_chunk c d")
  then have f: "chunks d1 = chunks d @ [c]" "downloadedSize d1 = downloadedSize d + length c"
    "totalSize d1 = totalSize d"
    using on_chunk_fields [of c d] by simp_all
  obtain ps1 where step: "read_loop (map Chunk (c # cs) @ rs) d ps = read_loop (map Chunk cs @ rs) d1 ps1"
    using oc by (cases p) simp_all
  from Cons.IH [of d1 ps1] obtain d' ps' where
    "read_loop (map Chunk cs @ rs) d1 ps1 = read_loop rs d' ps'"
    "chunks d' = chunks d1 @ cs" "downloadedSize d' = downloadedSize d1 + length (concat cs)"
    "totalSize d' = totalSize d1"
    by blast
  with step f show ?case
    by (intro exI [of _ d'] exI [of _ ps']) simp
qed


lemma cacheModel_total:
  assumes "no_throw idb"
  shows "\<exists>idb'. cacheModel idb key buf now = Some (Inr idb')"
proof (cases idb)
  case None
  then show ?thesis by (simp add: cacheModel_def)
next
  case (Some db)
  with assms show ?thesis
    by (cases "opens db") (simp_all add: cacheModel_def no_throw_def)
qed

lemma cacheModel_cases:
  "cacheModel idb key buf now = None
   \<or> cacheModel idb key buf now = Some (Inl (DOMException ''SecurityError''))
   \<or> (\<exists>idb'. cacheModel idb key buf now = Some (Inr idb'))"
proof (cases idb)
  case None
  then show ?thesis by (simp add: cacheModel_def)
next
  case (Some db)
  then show ?thesis
    by (cases "opens db") (simp_all add: cacheModel_def)
qed

lemma read_loop_ends:
  "read_loop (map Chunk cs) d ps = None"
  "\<exists>ps'. read_loop (map Chunk cs @ ReadError # rest) d ps = Some (ps', Inl (Rejection ''read''))"
  "\<exists>ps' d'. read_loop (map Chunk cs @ EndOfStream # rest) d ps = Some (ps', Inr d')"
proof -
  from read_loop_chunks [of cs "[]" d ps] obtain d' ps' where
    "read_loop (map Chunk cs) d ps = read_loop [] d' ps'"
    by auto
  then show "read_loop (map Chunk cs) d ps = None"
    by simp
  from read_loop_chunks [of cs "ReadError # rest" d ps] obtain d' ps' where
    "read_loop (map Chunk cs @ ReadError # rest) d ps = read_loop (ReadError # rest) d' ps'"
    by auto
  then show "\<exists>ps'. read_loop (map Chunk cs @ ReadError # rest) d ps
                 = Some (ps', Inl (Rejection ''read''))"
    by simp
  from read_loop_chunks [of cs "EndOfStream # rest" d ps] obtain d' ps' where
    "read_loop (map Chunk cs @ EndOfStream # rest) d ps = read_loop (EndOfStream # rest) d' ps'"
    by auto
  then show "\<exists>ps' d'. read_loop (map Chunk cs @ EndOfStream # rest) d ps = Some (ps', Inr d')"
    by simp
qed

lemma reads_exclusive:
  "map Chunk cs \<noteq> map Chunk cs' @ ReadError # rest'"
  "map Chunk cs \<noteq> map Chunk cs' @ EndOfStream # rest'"
  "map Chunk cs @ ReadError # rest \<noteq> map Chunk cs' @ EndOfStream # rest'"
proof -
  define d where "d = \<lparr> totalSize = None, chunks = [], downloadedSize = 0, lastPercent = 10 \<rparr>"
  show "map Chunk cs \<noteq> map Chunk cs' @ ReadError # rest'"
  proof
    assume "map Chunk cs = map Chunk cs' @ ReadError # rest'"
    then have "read_loop (map Chunk cs) d [] = read_loop (map Chunk cs' @ ReadError # rest') d []"
      by (rule arg_cong)
    with read_loop_ends(1) [of cs d "[]"] read_loop_ends(2) [of cs' rest' d "[]"]
    show False by (elim exE) simp
  qed
  show "map Chunk cs \<noteq> map Chunk cs' @ EndOfStream # rest'"
  proof
    assume "map Chunk cs = map Chunk cs' @ EndOfStream # rest'"
    then have "read_loop (map Chunk cs) d [] = read_loop (map Chunk cs' @ EndOfStream # rest') d []"
      by (rule arg_cong)
    with read_loop_ends(1) [of cs d "[]"] read_loop_ends(3) [of cs' rest' d "[]"]
    show False by (elim exE) simp
  qed
  show "map Chunk cs @ ReadError # rest \<noteq> map Chunk cs' @ EndOfStream # rest'"
  proof
    assume "map Chunk cs @ ReadError # rest = map Chunk cs' @ EndOfStream # rest'"
    then have "read_loop (map Chunk cs @ ReadError # rest) d []
                 = read_loop (map Chunk cs' @ EndOfStream # rest') d []"
      by (rule arg_cong)
    with read_loop_ends(2) [of cs rest d "[]"] read_loop_ends(3) [of cs' rest' d "[]"]
    show False by (elim exE) simp
  qed
qed

lemma reads_cases:
  "(\<exists>cs. reads = map Chunk cs)
   \<or> (\<exists>cs rest. reads = map Chunk cs @ ReadError # rest)
   \<or> (\<exists>cs rest. reads = map Chunk cs @ EndOfStream # rest)"
proof (induction reads)
  case Nil
  have "[] = map Chunk []" by simp
  then show ?case by (intro disjI1 exI [of _ "[]"])
next
  case (Cons x xs)
  show ?case
  proof (cases x)
    case (Chunk v)
    from Cons.IH consider cs where "xs = map Chunk cs"
      | cs rest where "xs = map Chunk cs @ ReadError # rest"
      | cs rest where "xs = map Chunk cs @ EndOfStream # rest"
      by blast
    then show ?thesis
    proof cases
      case 1
      then have "x # xs = map Chunk (v # cs)" using Chunk by simp
      then show ?thesis by (intro disjI1 exI [of _ "v # cs"])
    next
      case 2
      then have "x # xs = map Chunk (v # cs) @ ReadError # rest" using Chunk by simp
      then show ?thesis by (intro disjI2 disjI1 exI [of _ "v # cs"] exI [of _ rest])
    next
      case 3
      then have "x # xs = map Chunk (v # cs) @ EndOfStream # rest" using Chunk by simp
      then show ?thesis by (intro disjI2 exI [of _ "v # cs"] exI [of _ rest])
    qed
  next
    case EndOfStream
    then have "x # xs = map Chunk [] @ EndOfStream # xs" by simp
    then show ?thesis by (intro disjI2 exI [of _ "[]"] exI [of _ xs])
  next
    case ReadError
    then have "x # xs = map Chunk [] @ ReadError # xs" by simp
    then show ?thesis by (intro disjI2 disjI1 exI [of _ "[]"] exI [of _ xs])
  qed
qed

lemma download_bad_response:
  "\<not> ok r \<Longrightarrow> downloadAndCacheModelWithProgress (FetchResolves r reads) idb key now
      = Some ([], Inl (Error ''Model download failed''), idb)"
  "ok r \<Longrightarrow> \<not> has_body r \<Longrightarrow> downloadAndCacheModelWithProgress (FetchResolves r reads) idb key now
      = Some ([], Inl (Error ''Response body is null''), idb)"
  by (simp_all add: downloadAndCacheModelWithProgress_def on_response_def)

lemma download_reads:
  assumes "ok r" and "has_body r"
  shows "reads = map Chunk cs \<Longrightarrow>
           downloadAndCacheModelWithProgress (FetchResolves r reads) idb key now = None"
    and "reads = map Chunk cs @ ReadError # rest \<Longrightarrow>
           \<exists>ps. downloadAndCacheModelWithProgress (FetchResolves r reads) idb key now
                  = Some (ps, Inl (Rejection ''read''), idb)"
    and "reads = map Chunk cs @ EndOfStream # rest \<Longrightarrow>
           \<exists>ps. downloadAndCacheModelWithProgress (FetchResolves r reads) idb key now
                  = (case cacheModel idb key (concat cs) now of
                       None \<Rightarrow> None
                     | Some (Inl e) \<Rightarrow> Some (ps @ [75], Inl e, idb)
                     | Some (Inr idb') \<Rightarrow> Some (ps @ [75], Inr (concat cs), idb'))"
proof -
  define d0 where "d0 = \<lparr> totalSize = parse_length (content_length r), chunks = [],
                 downloadedSize = 0, lastPercent = 10 \<rparr>"
  have resp: "on_response r = Inr d0"
    using assms by (simp add: on_response_def d0_def)
  have run: "downloadAndCacheModelWithProgress (FetchResolves r reads) idb key now =
          (case read_loop reads d0 [] of
                  None \<Rightarrow> None
                | Some (ps, Inl e) \<Rightarrow> Some (ps, Inl e, idb)
                | Some (ps, Inr d) \<Rightarrow>
                    (case assemble d of
                       Inl e \<Rightarrow> Some (ps, Inl e, idb)
                     | Inr modelBuffer \<Rightarrow>
                         (case cacheModel idb key modelBuffer now of
                            None \<Rightarrow> None
                          | Some (Inl e) \<Rightarrow> Some (ps @ [75], Inl e, idb)
                          | Some (Inr indexedDB') \<Rightarrow>
                              Some (ps @ [75], Inr modelBuffer, indexedDB'))))"
    for reads
    by (simp add: downloadAndCacheModelWithProgress_def resp)
  {
    assume "reads = map Chunk cs"
    moreover from read_loop_chunks [of cs "[]" d0 "[]"] obtain d' ps' where
      "read_loop (map Chunk cs) d0 [] = read_loop [] d' ps'"
      by auto
    ultimately show "downloadAndCacheModelWithProgress (FetchResolves r reads) idb key now = None"
      by (simp add: run)
  }
  {
    assume "reads = map Chunk cs @ ReadError # rest"
    moreover from read_loop_chunks [of cs "ReadError # rest" d0 "[]"] obtain d' ps' where
      "read_loop (map Chunk cs @ ReadError # rest) d0 [] = read_loop (ReadError # rest) d' ps'"
      by auto
    ultimately show "\<exists>ps. downloadAndCacheModelWithProgress (FetchResolves r reads) idb key now
                  = Some (ps, Inl (Rejection ''read''), idb)"
      by (simp add: run)
  }
  {
    assume "reads = map Chunk cs @ EndOfStream # rest"
    moreover from read_loop_chunks [of cs "EndOfStream # rest" d0 "[]"] obtain d' ps' where
      rl: "read_loop (map Chunk cs @ EndOfStream # rest) d0 [] = read_loop (EndOfStream # rest) d' ps'"
      and f: "chunks d' = chunks d0 @ cs"
        "downloadedSize d' = downloadedSize d0 + length (concat cs)"
      by auto
    moreover have "assemble d' = Inr (concat cs)"
      using f assemble_concat [of d'] by (simp add: d0_def)
    ultimately have "downloadAndCacheModelWithProgress (FetchResolves r reads) idb key now
                  = (case cacheModel idb key (concat cs) now of
                       None \<Rightarrow> None
                     | Some (Inl e) \<Rightarrow> Some (ps' @ [75], Inl e, idb)
                     | Some (Inr idb') \<Rightarrow> Some (ps' @ [75], Inr (concat cs), idb'))"
      by (simp add: run)
    then show "\<exists>ps. downloadAndCacheModelWithProgress (FetchResolves r reads) idb key now
                  = (case cacheModel idb key (concat cs) now of
                       None \<Rightarrow> None
                     | Some (Inl e) \<Rightarrow> Some (ps @ [75], Inl e, idb)
                     | Some (Inr idb') \<Rightarrow> Some (ps @ [75], Inr (concat cs), idb'))"
      by (rule exI)
  }
qed


section \<open>Properties of the orchestrator\<close>

lemma task_simps [simp]:
  "pc (goto c t) = c" "progress (goto c t) = progress t" "ret (goto c t) = ret t"
  "pc (emitProgress p t) = pc t" "progress (emitProgress p t) = progress t @ [p]"
  "ret (emitProgress p t) = ret t"
  by (simp_all add: goto_def emitProgress_def)

lemma update_task_simps [simp]:
  "tasks (update_task i f w) = (tasks w)[i := f (tasks w ! i)]"
  "session (update_task i f w) = session w"
  "modelLoaded (update_task i f w) = modelLoaded w"
  "modelLoading (update_task i f w) = modelLoading w"
  "modelCacheKey (update_task i f w) = modelCacheKey w"
  "indexedDB (update_task i f w) = indexedDB w"
  "ort (update_task i f w) = ort w"
  "canvas2d (update_task i f w) = canvas2d w"
  "io_log (update_task i f w) = io_log w"
  by (simp_all add: update_task_def)

lemma start_simps [simp]:
  "tasks (start a w) = tasks w"
  "session (start a w) = session w"
  "modelLoaded (start a w) = modelLoaded w"
  "modelLoading (start a w) = modelLoading w"
  "modelCacheKey (start a w) = modelCacheKey w"
  "indexedDB (start a w) = indexedDB w"
  "ort (start a w) = ort w"
  "canvas2d (start a w) = canvas2d w"
  "io_log (start a w) = io_log w @ [a]"
  by (simp_all add: start_def)

lemma downloads_simps [simp]:
  "downloads (update_task i f w) = downloads w"
  "downloads (start a w) = (if a = FetchModel then downloads w + 1 else downloads w)"
  "downloads (w \<lparr> session := s \<rparr>) = downloads w"
  "downloads (w \<lparr> modelLoading := b \<rparr>) = downloads w"
  "downloads (w \<lparr> modelLoaded := b \<rparr>) = downloads w"
  "downloads (w \<lparr> indexedDB := x \<rparr>) = downloads w"
  "downloads (w \<lparr> tasks := ts \<rparr>) = downloads w"
  by (simp_all add: downloads_def)

lemma afterModel_simps [simp]:
  "tasks (afterModel i w) =
     (tasks w)[i := if session w = None then goto (Rejected (Error ''Model not loaded'')) (tasks w ! i)
                    else goto AwaitPreprocess (emitProgress 15 (tasks w ! i))]"
  "session (afterModel i w) = session w"
  "modelLoaded (afterModel i w) = modelLoaded w"
  "modelLoading (afterModel i w) = modelLoading w"
  "modelCacheKey (afterModel i w) = modelCacheKey w"
  "indexedDB (afterModel i w) = indexedDB w"
  "ort (afterModel i w) = ort w"
  "canvas2d (afterModel i w) = canvas2d w"
  "io_log (afterModel i w) = io_log w"
  "downloads (afterModel i w) = downloads w"
  by (simp_all add: afterModel_def)

lemma checkModel_simps [simp]:
  "length (tasks (checkModel i w)) = length (tasks w)"
  "j \<noteq> i \<Longrightarrow> tasks (checkModel i w) ! j = tasks w ! j"
  "ort (checkModel i w) = ort w" "canvas2d (checkModel i w) = canvas2d w"
  "modelCacheKey (checkModel i w) = modelCacheKey w"
  "session (checkModel i w) = session w"
  "indexedDB (checkModel i w) = indexedDB w"
  "modelLoaded (checkModel i w) = modelLoaded w"
  "downloads (checkModel i w) = downloads w"
  by (simp_all add: checkModel_def loadModelWithProgress_def Let_def split: option.splits)

lemmas handler_defs = on_decoded_def on_cache_read_def on_session_created_def on_fetched_def
  on_read_done_def on_cache_written_def on_tick_def on_run_done_def on_encoded_def

lemma step_frame:
  assumes "target e = Some i"
  shows "length (tasks (step e w)) = length (tasks w)"
    and "j \<noteq> i \<Longrightarrow> tasks (step e w) ! j = tasks w ! j"
    and "ort (step e w) = ort w" and "canvas2d (step e w) = canvas2d w"
    and "modelCacheKey (step e w) = modelCacheKey w"
  using assms
  by (cases e; cases "pc (tasks w ! i)";
      simp add: step_def target_def handler_defs Let_def
        split: option.splits sum.splits read_result.splits prod.splits)+

lemma summaryD:
  assumes "summary c c' w w'"
  shows "loading c' \<Longrightarrow> \<not> loading c \<Longrightarrow>
        \<not> modelLoaded w \<and> \<not> modelLoading w \<and> c' = AwaitCacheGet \<and> modelLoading w' \<and> \<not> modelLoaded w'"
    and "loading c \<Longrightarrow> \<not> loading c' \<Longrightarrow>
        (c = AwaitLoad \<and> modelLoaded w' \<and> \<not> modelLoading w')
        \<or> ((\<exists>e. c' = Rejected e) \<and> modelLoaded w' = modelLoaded w \<and> modelLoading w' = modelLoading w)"
    and "(loading c \<longleftrightarrow> loading c') \<Longrightarrow>
        modelLoaded w' = modelLoaded w \<and> modelLoading w' = modelLoading w"
    and "session w \<noteq> None \<Longrightarrow> session w' \<noteq> None"
    and "session w' \<noteq> session w \<Longrightarrow> c' = AwaitLoad \<and> c \<noteq> AwaitLoad"
    and "c' = AwaitLoad \<Longrightarrow> c = AwaitLoad \<or> session w' \<noteq> None"
    and "downloads w' = (if c = AwaitCacheGet \<and> c' = AwaitFetch then downloads w + 1 else downloads w)"
    and "c' = AwaitFetch \<Longrightarrow> c = AwaitFetch \<or> c = AwaitCacheGet"
    and "c' = AwaitCacheGet \<Longrightarrow> c = AwaitCacheGet \<or> \<not> loading c"
    and "c = AwaitTimer \<Longrightarrow> modelLoading w \<Longrightarrow> c' = AwaitTimer"
    and "c' = AwaitTimer \<Longrightarrow> c = AwaitTimer \<or> (modelLoading w \<and> \<not> modelLoaded w)"
    and "c' = Running \<Longrightarrow> c = Running"
    and "c' = AwaitRead d' \<Longrightarrow>
          (c = AwaitFetch \<and> consistent d') \<or> (\<exists>d. c = AwaitRead d \<and> (consistent d \<longrightarrow> consistent d'))"
    and "terminal c \<Longrightarrow> c' = c"
    and "c = AwaitLoad \<Longrightarrow> c' = Rejected e \<Longrightarrow> session w = None"
proof -
  note s = assms [unfolded summary_def]
  note k1 = s [THEN conjunct1] and r1 = s [THEN conjunct2]
  note k2 = r1 [THEN conjunct1] and r2 = r1 [THEN conjunct2]
  note k3 = r2 [THEN conjunct1] and r3 = r2 [THEN conjunct2]
  note k4 = r3 [THEN conjunct1] and r4 = r3 [THEN conjunct2]
  note k5 = r4 [THEN conjunct1] and r5 = r4 [THEN conjunct2]
  note k6 = r5 [THEN conjunct1] and r6 = r5 [THEN conjunct2]
  note k7 = r6 [THEN conjunct1] and r7 = r6 [THEN conjunct2]
  note k8 = r7 [THEN conjunct1] and r8 = r7 [THEN conjunct2]
  note k9 = r8 [THEN conjunct1] and r9 = r8 [THEN conjunct2]
  note k10 = r9 [THEN conjunct1] and r10 = r9 [THEN conjunct2]
  note k11 = r10 [THEN conjunct1] and r11 = r10 [THEN conjunct2]
  note k12 = r11 [THEN conjunct1] and r12 = r11 [THEN conjunct2]
  note k13 = r12 [THEN conjunct1] and r13 = r12 [THEN conjunct2]
  note k14 = r13 [THEN conjunct1] and r14 = r13 [THEN conjunct2]
  note k15 = r14
  show "loading c' \<Longrightarrow> \<not> loading c \<Longrightarrow>
        \<not> modelLoaded w \<and> \<not> modelLoading w \<and> c' = AwaitCacheGet \<and> modelLoading w' \<and> \<not> modelLoaded w'"
    using k1 by blast
  show "loading c \<Longrightarrow> \<not> loading c' \<Longrightarrow>
        (c = AwaitLoad \<and> modelLoaded w' \<and> \<not> modelLoading w')
        \<or> ((\<exists>e. c' = Rejected e) \<and> modelLoaded w' = modelLoaded w \<and> modelLoading w' = modelLoading w)"
    using k2 by blast
  show "(loading c \<longleftrightarrow> loading c') \<Longrightarrow>
        modelLoaded w' = modelLoaded w \<and> modelLoading w' = modelLoading w"
    using k3 by blast
  show "session w \<noteq> None \<Longrightarrow> session w' \<noteq> None"
    using k4 by blast
  show "session w' \<noteq> session w \<Longrightarrow> c' = AwaitLoad \<and> c \<noteq> AwaitLoad"
    using k5 by blast
  show "c' = AwaitLoad \<Longrightarrow> c = AwaitLoad \<or> session w' \<noteq> None"
    using k6 by blast
  show "downloads w' = (if c = AwaitCacheGet \<and> c' = AwaitFetch then downloads w + 1 else downloads w)"
    using k7 by blast
  show "c' = AwaitFetch \<Longrightarrow> c = AwaitFetch \<or> c = AwaitCacheGet"
    using k8 by blast
  show "c' = AwaitCacheGet \<Longrightarrow> c = AwaitCacheGet \<or> \<not> loading c"
    using k9 by blast
  show "c = AwaitTimer \<Longrightarrow> modelLoading w \<Longrightarrow> c' = AwaitTimer"
    using k10 by blast
  show "c' = AwaitTimer \<Longrightarrow> c = AwaitTimer \<or> (modelLoading w \<and> \<not> modelLoaded w)"
    using k11 by blast
  show "c' = Running \<Longrightarrow> c = Running"
    using k12 by blast
  show "c' = AwaitRead d' \<Longrightarrow>
          (c = AwaitFetch \<and> consistent d') \<or> (\<exists>d. c = AwaitRead d \<and> (consistent d \<longrightarrow> consistent d'))"
    using k13 by blast
  show "terminal c \<Longrightarrow> c' = c"
    using k14 by blast
  show "c = AwaitLoad \<Longrightarrow> c' = Rejected e \<Longrightarrow> session w = None"
    using k15 by blast
qed

lemma coherentD:
  assumes "coherent cs w"
  shows "a < length cs \<Longrightarrow> b < length cs \<Longrightarrow> loading (cs ! a) \<Longrightarrow> loading (cs ! b) \<Longrightarrow> a = b"
    and "a < length cs \<Longrightarrow> loading (cs ! a) \<Longrightarrow> modelLoading w \<and> \<not> modelLoaded w"
    and "a < length cs \<Longrightarrow> cs ! a = AwaitLoad \<Longrightarrow> session w \<noteq> None"
    and "modelLoaded w \<Longrightarrow> \<not> modelLoading w \<and> session w \<noteq> None"
    and "\<not> modelLoaded w \<Longrightarrow> \<not> modelLoading w \<Longrightarrow> downloads w = 0"
    and "a < length cs \<Longrightarrow> cs ! a = AwaitCacheGet \<Longrightarrow> downloads w = 0"
    and "downloads w \<le> 1"
    and "a < length cs \<Longrightarrow> cs ! a = AwaitTimer \<Longrightarrow> modelLoading w \<or> modelLoaded w"
    and "a < length cs \<Longrightarrow> cs ! a = AwaitRead d \<Longrightarrow> consistent d"
proof -
  note s = assms [unfolded coherent_def]
  note k1 = s [THEN conjunct1] and r1 = s [THEN conjunct2]
  note k2 = r1 [THEN conjunct1] and r2 = r1 [THEN conjunct2]
  note k3 = r2 [THEN conjunct1] and r3 = r2 [THEN conjunct2]
  note k4 = r3 [THEN conjunct1] and r4 = r3 [THEN conjunct2]
  note k5 = r4 [THEN conjunct1] and r5 = r4 [THEN conjunct2]
  note k6 = r5 [THEN conjunct1] and r6 = r5 [THEN conjunct2]
  note k7 = r6 [THEN conjunct1] and r7 = r6 [THEN conjunct2]
  note k8 = r7 [THEN conjunct1] and r8 = r7 [THEN conjunct2]
  note k9 = r8
  show "a < length cs \<Longrightarrow> b < length cs \<Longrightarrow> loading (cs ! a) \<Longrightarrow> loading (cs ! b) \<Longrightarrow> a = b"
    using k1 by blast
  show "a < length cs \<Longrightarrow> loading (cs ! a) \<Longrightarrow> modelLoading w \<and> \<not> modelLoaded w"
    using k2 by blast
  show "a < length cs \<Longrightarrow> cs ! a = AwaitLoad \<Longrightarrow> session w \<noteq> None"
    using k3 by blast
  show "modelLoaded w \<Longrightarrow> \<not> modelLoading w \<and> session w \<noteq> None"
    using k4 by blast
  show "\<not> modelLoaded w \<Longrightarrow> \<not> modelLoading w \<Longrightarrow> downloads w = 0"
    using k5 by blast
  show "a < length cs \<Longrightarrow> cs ! a = AwaitCacheGet \<Longrightarrow> downloads w = 0"
    using k6 by blast
  show "downloads w \<le> 1"
    using k7 by blast
  show "a < length cs \<Longrightarrow> cs ! a = AwaitTimer \<Longrightarrow> modelLoading w \<or> modelLoaded w"
    using k8 by blast
  show "a < length cs \<Longrightarrow> cs ! a = AwaitRead d \<Longrightarrow> consistent d"
    using k9 by blast
qed

lemma checkModel_pc:
  assumes "i < length (tasks w)"
  shows "pc (tasks (checkModel i w) ! i) =
          (if \<not> modelLoaded w \<and> \<not> modelLoading w then AwaitCacheGet
           else if \<not> modelLoaded w \<and> modelLoading w then AwaitTimer
           else if session w = None then Rejected (Error ''Model not loaded'')
           else AwaitPreprocess)"
    and "modelLoading (checkModel i w) = (modelLoading w \<or> \<not> modelLoaded w)"
  using assms
  by (simp_all add: checkModel_def loadModelWithProgress_def Let_def split: option.splits)

lemma on_chunk_consistent:
  "on_chunk v d = (d', p) \<Longrightarrow> consistent d \<Longrightarrow> consistent d'"
  using on_chunk_fields(1,2) [of v d] by (simp add: consistent_def)

lemma on_response_consistent:
  "on_response r = Inr d \<Longrightarrow> consistent d"
  by (auto simp add: on_response_def consistent_def split: if_splits)

lemma step_summary:
  assumes "target e = Some i" and "i < length (tasks w)"
  shows "summary (pc (tasks w ! i)) (pc (tasks (step e w) ! i)) w (step e w)"
proof (cases e)
  case (Invoke a b)
  with assms show ?thesis by (simp add: target_def)
next
  case (Decoded k b)
  with assms have [simp]: "k = i" by (simp add: target_def)
  show ?thesis
    using assms(2) Decoded
    by (cases "pc (tasks w ! i)")
       (simp_all add: step_def on_decoded_def summary_def loading_def terminal_def checkModel_pc)
next
  case (CacheRead k)
  with assms have [simp]: "k = i" by (simp add: target_def)
  show ?thesis
    using assms(2) CacheRead
    by (cases "pc (tasks w ! i)")
       (auto simp add: step_def on_cache_read_def summary_def loading_def terminal_def
          split: sum.splits option.splits)
next
  case (SessionCreated k b)
  with assms have [simp]: "k = i" by (simp add: target_def)
  show ?thesis
    using assms(2) SessionCreated
    by (cases "pc (tasks w ! i)")
       (auto simp add: step_def on_session_created_def summary_def loading_def terminal_def)
next
  case (Fetched k r)
  with assms have [simp]: "k = i" by (simp add: target_def)
  show ?thesis
    using assms(2) Fetched
    by (cases "pc (tasks w ! i)")
       (auto simp add: step_def on_fetched_def summary_def loading_def terminal_def on_response_consistent
          split: sum.splits option.splits)
next
  case (ReadDone k r)
  with assms have [simp]: "k = i" by (simp add: target_def)
  show ?thesis
    using assms(2) ReadDone
    by (cases "pc (tasks w ! i)")
       (auto simp add: step_def on_read_done_def summary_def loading_def terminal_def Let_def
          intro: on_chunk_consistent
          split: sum.splits option.splits read_result.splits prod.splits)
next
  case (CacheWritten k n)
  with assms have [simp]: "k = i" by (simp add: target_def)
  show ?thesis
    using assms(2) CacheWritten
    by (cases "pc (tasks w ! i)")
       (auto simp add: step_def on_cache_written_def summary_def loading_def terminal_def
          split: sum.splits option.splits)
next
  case (Tick k)
  with assms have [simp]: "k = i" by (simp add: target_def)
  show ?thesis
    using assms(2) Tick
    by (cases "pc (tasks w ! i)")
       (auto simp add: step_def on_tick_def summary_def loading_def terminal_def)
next
  case (RunDone k b)
  with assms have [simp]: "k = i" by (simp add: target_def)
  show ?thesis
    using assms(2) RunDone
    by (cases "pc (tasks w ! i)")
       (auto simp add: step_def on_run_done_def summary_def loading_def terminal_def)
next
  case (Encoded k b)
  with assms have [simp]: "k = i" by (simp add: target_def)
  show ?thesis
    using assms(2) Encoded
    by (cases "pc (tasks w ! i)")
       (auto simp add: step_def on_encoded_def summary_def loading_def terminal_def)
qed

lemma coherent_step:
  assumes co: "coherent cs w" and i: "i < length cs" and su: "summary (cs ! i) c' w w'"
  shows "coherent (cs[i := c']) w'"
proof -
  let ?c = "cs ! i"
  let ?cs' = "cs[i := c']"
  have nth: "?cs' ! j = (if j = i then c' else cs ! j)" if "j < length cs" for j
    using that by (simp add: nth_list_update)
  note uniq = coherentD(1) [OF co] and flag = coherentD(2) [OF co] and sess = coherentD(3) [OF co]
    and lded = coherentD(4) [OF co] and idle = coherentD(5) [OF co] and cget = coherentD(6) [OF co]
    and dl1 = coherentD(7) [OF co] and tmr = coherentD(8) [OF co] and cons = coherentD(9) [OF co]
  note s1 = summaryD(1) [OF su] and s2 = summaryD(2) [OF su] and s3 = summaryD(3) [OF su]
    and s4 = summaryD(4) [OF su] and s6 = summaryD(6) [OF su] and s7 = summaryD(7) [OF su]
    and s9 = summaryD(9) [OF su] and s11 = summaryD(11) [OF su] and s13 = summaryD(13) [OF su]
  \<comment> \<open>no other call is loading when this one is or becomes a loader\<close>
  have alone: "\<not> loading (cs ! a)" if "a < length cs" "a \<noteq> i" "loading ?c \<or> loading c'" for a
  proof
    assume la: "loading (cs ! a)"
    show False
    proof (cases "loading ?c")
      case True
      with la that i uniq show False by blast
    next
      case False
      with that(3) s1 have "\<not> modelLoading w" by blast
      with la flag that(1) show False by blast
    qed
  qed
  have flags': "modelLoading w' \<and> \<not> modelLoaded w'" if "loading c'"
  proof (cases "loading ?c")
    case True
    with s3 that flag i show ?thesis by metis
  next
    case False
    with s1 that show ?thesis by blast
  qed
  have flags_same: "modelLoaded w' = modelLoaded w \<and> modelLoading w' = modelLoading w"
    if "\<not> loading ?c" "\<not> loading c'"
    using s3 that by blast
  have c1: "\<forall>a < length ?cs'. \<forall>b < length ?cs'. loading (?cs' ! a) \<and> loading (?cs' ! b) \<longrightarrow> a = b"
  proof (intro allI impI)
    fix a b
    assume a: "a < length ?cs'" and b: "b < length ?cs'"
      and l: "loading (?cs' ! a) \<and> loading (?cs' ! b)"
    show "a = b"
    proof (cases "a = i")
      case True
      show ?thesis
      proof (cases "b = i")
        case True
        with \<open>a = i\<close> show ?thesis by simp
      next
        case False
        with l a b True nth have "loading c'" "loading (cs ! b)" by simp_all
        with alone [of b] b False show ?thesis by simp
      qed
    next
      case False
      show ?thesis
      proof (cases "b = i")
        case True
        with l a b False nth have "loading c'" "loading (cs ! a)" by simp_all
        with alone [of a] a False show ?thesis by simp
      next
        case bi: False
        with l a b False nth have "loading (cs ! a)" "loading (cs ! b)" by simp_all
        with uniq a b show ?thesis by simp
      qed
    qed
  qed
  have c2: "\<forall>a < length ?cs'. loading (?cs' ! a) \<longrightarrow> modelLoading w' \<and> \<not> modelLoaded w'"
  proof (intro allI impI)
    fix a
    assume a: "a < length ?cs'" and l: "loading (?cs' ! a)"
    show "modelLoading w' \<and> \<not> modelLoaded w'"
    proof (cases "a = i")
      case True
      with l a nth have "loading c'" by simp
      then show ?thesis by (rule flags')
    next
      case False
      with l a nth have la: "loading (cs ! a)" by simp
      with alone [of a] a False have n: "\<not> loading ?c" "\<not> loading c'" by auto
      from la flag a have "modelLoading w \<and> \<not> modelLoaded w" by simp
      with flags_same [OF n] show ?thesis by simp
    qed
  qed
  have c3: "\<forall>a < length ?cs'. ?cs' ! a = AwaitLoad \<longrightarrow> session w' \<noteq> None"
  proof (intro allI impI)
    fix a
    assume a: "a < length ?cs'" and l: "?cs' ! a = AwaitLoad"
    show "session w' \<noteq> None"
    proof (cases "a = i")
      case True
      with l a nth have "c' = AwaitLoad" by simp
      with s6 sess [OF i] s4 show ?thesis by blast
    next
      case False
      with l a nth have "cs ! a = AwaitLoad" by simp
      with sess a s4 show ?thesis by simp
    qed
  qed
  have c4: "modelLoaded w' \<longrightarrow> \<not> modelLoading w' \<and> session w' \<noteq> None"
  proof
    assume ml: "modelLoaded w'"
    show "\<not> modelLoading w' \<and> session w' \<noteq> None"
    proof (cases "loading ?c")
      case True
      then have nl: "\<not> modelLoaded w" using flag i by blast
      show ?thesis
      proof (cases "loading c'")
        case True
        with flags' ml show ?thesis by blast
      next
        case False
        with s2 True nl ml have "?c = AwaitLoad \<and> \<not> modelLoading w'" by metis
        with sess [OF i] s4 show ?thesis by blast
      qed
    next
      case False
      show ?thesis
      proof (cases "loading c'")
        case True
        with flags' ml show ?thesis by blast
      next
        case nl: False
        with flags_same [OF False] ml lded s4 show ?thesis by simp
      qed
    qed
  qed
  have dl_le: "downloads w' = downloads w \<or> (?c = AwaitCacheGet \<and> downloads w' = 1)"
    using s7 cget [OF i] by (cases "?c = AwaitCacheGet \<and> c' = AwaitFetch") simp_all
  have c5: "\<not> modelLoaded w' \<and> \<not> modelLoading w' \<longrightarrow> downloads w' = 0"
  proof
    assume idle': "\<not> modelLoaded w' \<and> \<not> modelLoading w'"
    have nl': "\<not> loading c'"
      using flags' idle' by blast
    have nl: "\<not> loading ?c"
    proof
      assume l: "loading ?c"
      with s2 nl' idle' have "modelLoading w' = modelLoading w" by metis
      with flag [OF i l] idle' show False by simp
    qed
    from flags_same [OF nl nl'] idle' idle have "downloads w = 0" by simp
    moreover from nl have "?c \<noteq> AwaitCacheGet" by (auto simp add: loading_def)
    ultimately show "downloads w' = 0" using s7 by simp
  qed
  have c6: "\<forall>a < length ?cs'. ?cs' ! a = AwaitCacheGet \<longrightarrow> downloads w' = 0"
  proof (intro allI impI)
    fix a
    assume a: "a < length ?cs'" and l: "?cs' ! a = AwaitCacheGet"
    show "downloads w' = 0"
    proof (cases "a = i")
      case True
      with l a nth have c': "c' = AwaitCacheGet" by simp
      then have same: "downloads w' = downloads w" using s7 by simp
      from s9 c' consider "?c = AwaitCacheGet" | "\<not> loading ?c" by blast
      then show ?thesis
      proof cases
        case 1
        with cget [OF i] same show ?thesis by simp
      next
        case 2
        moreover have "loading c'" using c' by (simp add: loading_def)
        ultimately have "\<not> modelLoaded w \<and> \<not> modelLoading w" using s1 by blast
        with idle same show ?thesis by simp
      qed
    next
      case False
      with l a nth have ca: "cs ! a = AwaitCacheGet" by simp
      then have "loading (cs ! a)" by (simp add: loading_def)
      with alone [of a] a False have "\<not> loading ?c" by auto
      then have "?c \<noteq> AwaitCacheGet" by (auto simp add: loading_def)
      with s7 cget [of a] a ca show ?thesis by simp
    qed
  qed
  have c7: "downloads w' \<le> 1"
    using dl_le dl1 by auto
  have c8: "\<forall>a < length ?cs'. ?cs' ! a = AwaitTimer \<longrightarrow> modelLoading w' \<or> modelLoaded w'"
  proof (intro allI impI)
    fix a
    assume a: "a < length ?cs'" and l: "?cs' ! a = AwaitTimer"
    have before: "modelLoading w \<or> modelLoaded w"
    proof (cases "a = i")
      case True
      with l a nth have "c' = AwaitTimer" by simp
      with s11 tmr [OF i] show ?thesis by blast
    next
      case False
      with l a nth tmr [of a] show ?thesis by simp
    qed
    show "modelLoading w' \<or> modelLoaded w'"
    proof (cases "loading ?c")
      case True
      show ?thesis
      proof (cases "loading c'")
        case True
        with flags' show ?thesis by blast
      next
        case False
        with s2 True flag [OF i True] show ?thesis by metis
      qed
    next
      case False
      show ?thesis
      proof (cases "loading c'")
        case True
        with flags' show ?thesis by blast
      next
        case nl: False
        with flags_same [OF False] before show ?thesis by simp
      qed
    qed
  qed
  have c9: "\<forall>a < length ?cs'. \<forall>d. ?cs' ! a = AwaitRead d \<longrightarrow> consistent d"
  proof (intro allI impI)
    fix a d
    assume a: "a < length ?cs'" and l: "?cs' ! a = AwaitRead d"
    show "consistent d"
    proof (cases "a = i")
      case True
      with l a nth have "c' = AwaitRead d" by simp
      with s13 cons [OF i] show ?thesis by blast
    next
      case False
      with l a nth cons [of a d] show ?thesis by simp
    qed
  qed
  from c1 c2 c3 c4 c5 c6 c7 c8 c9 show ?thesis
    unfolding coherent_def by blast
qed

lemma step_out_of_range:
  assumes "target e = Some i" and "\<not> i < length (tasks w)"
  shows "step e w = w"
  using assms by (cases e) (simp_all add: step_def target_def)

lemma map_pc_step:
  assumes "target e = Some i" and "i < length (tasks w)"
  shows "map pc (tasks (step e w)) = (map pc (tasks w))[i := pc (tasks (step e w) ! i)]"
proof (rule nth_equalityI)
  show "length (map pc (tasks (step e w))) = length ((map pc (tasks w))[i := pc (tasks (step e w) ! i)])"
    using step_frame(1) [OF assms(1)] by simp
next
  fix j
  assume "j < length (map pc (tasks (step e w)))"
  then have j: "j < length (tasks w)"
    using step_frame(1) [OF assms(1)] by simp
  show "map pc (tasks (step e w)) ! j = (map pc (tasks w))[i := pc (tasks (step e w) ! i)] ! j"
    using j step_frame(1) [OF assms(1), of w] step_frame(2) [OF assms(1), of j w] assms(2)
    by (cases "j = i") (simp_all add: nth_list_update)
qed

lemma invoke_tasks:
  "\<exists>t. tasks (step (Invoke a r) w) = tasks w @ [t] \<and> pc t \<noteq> Running
       \<and> summary Running (pc t) w (step (Invoke a r) w)"
proof (cases a)
  case ImageElement
  let ?w0 = "w \<lparr> tasks := tasks w @ [\<lparr> pc = Running, progress = [0], ret = r \<rparr>] \<rparr>"
  let ?i = "length (tasks w)"
  have st: "step (Invoke a r) w = checkModel ?i ?w0"
    using ImageElement by (simp add: step_def removeBackground_def Let_def)
  have i: "?i < length (tasks ?w0)" by simp
  have "tasks (checkModel ?i ?w0) = tasks w @ [tasks (checkModel ?i ?w0) ! ?i]"
  proof (rule nth_equalityI)
    show "length (tasks (checkModel ?i ?w0)) = length (tasks w @ [tasks (checkModel ?i ?w0) ! ?i])"
      by simp
  next
    fix j assume "j < length (tasks (checkModel ?i ?w0))"
    then have "j < Suc ?i" by simp
    then show "tasks (checkModel ?i ?w0) ! j = (tasks w @ [tasks (checkModel ?i ?w0) ! ?i]) ! j"
      by (cases "j = ?i") (simp_all add: nth_append)
  qed
  moreover have "pc (tasks (checkModel ?i ?w0) ! ?i) \<noteq> Running"
    using checkModel_pc(1) [OF i] by simp
  moreover have "summary Running (pc (tasks (checkModel ?i ?w0) ! ?i)) w (checkModel ?i ?w0)"
    using checkModel_pc [OF i]
    by (simp add: summary_def loading_def terminal_def)
  ultimately show ?thesis
    unfolding st by blast
next
  case Base64String
  then show ?thesis
    by (simp add: step_def removeBackground_def Let_def summary_def loading_def terminal_def)
next
  case OtherValue
  then show ?thesis
    by (simp add: step_def removeBackground_def Let_def summary_def loading_def terminal_def)
qed

lemma invoke_env:
  "ort (step (Invoke a r) w) = ort w" "canvas2d (step (Invoke a r) w) = canvas2d w"
  "modelCacheKey (step (Invoke a r) w) = modelCacheKey w"
  by (cases a; simp add: step_def removeBackground_def Let_def)+

lemma coherent_snoc_Running:
  assumes "coherent cs w"
  shows "coherent (cs @ [Running]) w"
  using assms unfolding coherent_def
  by (auto simp add: nth_append less_Suc_eq loading_def)

lemma inv_step:
  assumes "inv w"
  shows "inv (step e w)"
proof (cases "target e")
  case None
  then obtain a r where e: "e = Invoke a r"
    by (cases e) (simp_all add: target_def)
  from invoke_tasks [of a r w] obtain t where
    t: "tasks (step (Invoke a r) w) = tasks w @ [t]" "pc t \<noteq> Running"
    and su: "summary Running (pc t) w (step (Invoke a r) w)"
    by blast
  let ?cs = "map pc (tasks w) @ [Running]"
  have "coherent ?cs w"
    using assms by (simp add: inv_def coherent_snoc_Running)
  moreover have "?cs ! length (tasks w) = Running"
    by (simp add: nth_append)
  ultimately have "coherent (?cs[length (tasks w) := pc t]) (step (Invoke a r) w)"
    using su by (intro coherent_step) simp_all
  moreover have "?cs[length (tasks w) := pc t] = map pc (tasks (step (Invoke a r) w))"
    using list_update_length [of "map pc (tasks w)" Running "[]" "pc t"] by (simp add: t)
  ultimately show ?thesis
    using assms t by (auto simp add: inv_def e nth_append less_Suc_eq)
next
  case (Some i)
  show ?thesis
  proof (cases "i < length (tasks w)")
    case False
    with Some assms show ?thesis by (simp add: step_out_of_range)
  next
    case True
    let ?cs = "map pc (tasks w)"
    let ?c' = "pc (tasks (step e w) ! i)"
    have su: "summary (?cs ! i) ?c' w (step e w)"
      using step_summary [OF Some True] True by simp
    have "coherent (?cs[i := ?c']) (step e w)"
      using assms True su by (intro coherent_step) (simp_all add: inv_def)
    then have co: "coherent (map pc (tasks (step e w))) (step e w)"
      by (simp add: map_pc_step [OF Some True])
    have nr: "?c' \<noteq> Running"
    proof
      assume "?c' = Running"
      with su have "?cs ! i = Running" by (simp add: summary_def)
      with True assms show False by (simp add: inv_def)
    qed
    have "pc (tasks (step e w) ! j) \<noteq> Running" if "j < length (tasks (step e w))" for j
    proof (cases "j = i")
      case True
      with nr show ?thesis by simp
    next
      case False
      with that assms step_frame(1) [OF Some, of w] step_frame(2) [OF Some, of j w]
      show ?thesis by (simp add: inv_def)
    qed
    with co show ?thesis by (simp add: inv_def)
  qed
qed

lemma inv_exec:
  "inv w \<Longrightarrow> inv (exec evs w)"
  by (induction evs arbitrary: w) (simp_all add: exec_def inv_step)

lemma inv_new_instance:
  "inv (new_instance key db has_ort has_canvas)"
  by (simp add: inv_def coherent_def new_instance_def downloads_def)

lemma step_effect:
  obtains (same) "step e w = w"
  | (resume) i where "target e = Some i" "i < length (tasks w)"
      "summary (pc (tasks w ! i)) (pc (tasks (step e w) ! i)) w (step e w)"
      "length (tasks (step e w)) = length (tasks w)"
      "\<And>j. j \<noteq> i \<Longrightarrow> tasks (step e w) ! j = tasks w ! j"
  | (invoke) a r t where "e = Invoke a r" "tasks (step e w) = tasks w @ [t]" "pc t \<noteq> Running"
      "summary Running (pc t) w (step e w)"
proof (cases "target e")
  case None
  then obtain a r where e: "e = Invoke a r"
    by (cases e) (simp_all add: target_def)
  with invoke_tasks [of a r w] invoke show ?thesis by blast
next
  case (Some i)
  show ?thesis
  proof (cases "i < length (tasks w)")
    case False
    with Some same show ?thesis by (simp add: step_out_of_range)
  next
    case True
    with Some resume step_summary step_frame(1,2) show ?thesis by blast
  qed
qed

lemma stuck_after_reject:
  assumes "inv w" and "i < length (tasks w)" and "loading (pc (tasks w ! i))"
    and "pc (tasks (step e w) ! i) = Rejected err"
  shows "stuck (step e w)" and "downloads (step e w) = downloads w"
proof -
  let ?w' = "step e w"
  have co: "coherent (map pc (tasks w)) w"
    using assms(1) by (simp add: inv_def)
  have nr: "\<not> loading (Rejected err)"
    by (simp add: loading_def)
  have both: "stuck ?w' \<and> downloads ?w' = downloads w"
  proof (cases e w rule: step_effect)
    case same
    with assms(3,4) nr show ?thesis by simp
  next
    case (invoke a r t)
    with assms(2,3,4) nr show ?thesis by (simp add: nth_append)
  next
    case (resume k)
    have ki: "k = i"
    proof (rule ccontr)
      assume "k \<noteq> i"
      then have "tasks ?w' ! i = tasks w ! i" using resume(5) by simp
      with assms(3,4) nr show False by simp
    qed
    let ?c = "pc (tasks w ! i)"
    from resume(3) ki assms(4) have su: "summary ?c (Rejected err) w ?w'" by simp
    have notload: "?c \<noteq> AwaitLoad"
    proof
      assume l: "?c = AwaitLoad"
      then have "session w \<noteq> None"
        using coherentD(3) [OF co, of i] assms(2) by simp
      with summaryD(15) [OF su l] show False by simp
    qed
    from summaryD(2) [OF su assms(3) nr] notload
    have flags: "modelLoaded ?w' = modelLoaded w" "modelLoading ?w' = modelLoading w"
      by blast+
    from coherentD(2) [OF co, of i] assms(2,3) have "modelLoading w" "\<not> modelLoaded w"
      by simp_all
    with flags have f': "modelLoading ?w'" "\<not> modelLoaded ?w'" by simp_all
    have others: "\<not> loading (pc (tasks ?w' ! j))" if "j < length (tasks ?w')" for j
    proof (cases "j = i")
      case True
      with assms(4) nr show ?thesis by simp
    next
      case False
      then have same: "tasks ?w' ! j = tasks w ! j" using resume(5) ki by simp
      have j: "j < length (tasks w)" using that resume(4) by simp
      have "\<not> loading (pc (tasks w ! j))"
        using coherentD(1) [OF co, of j i] j assms(2,3) False by auto
      with same show ?thesis by simp
    qed
    from summaryD(7) [OF su] have "downloads ?w' = downloads w"
      by simp
    with f' others show ?thesis by (simp add: stuck_def)
  qed
  from both show "stuck (step e w)" and "downloads (step e w) = downloads w"
    by simp_all
qed

lemma stuck_step:
  assumes "stuck w"
  shows "stuck (step e w)" and "downloads (step e w) = downloads w"
    and "length (tasks w) \<le> length (tasks (step e w))"
    and "j < length (tasks w) \<Longrightarrow> pc (tasks w ! j) = AwaitTimer \<Longrightarrow> pc (tasks (step e w) ! j) = AwaitTimer"
proof -
  let ?w' = "step e w"
  have f: "modelLoading w" "\<not> modelLoaded w"
    and nl: "\<And>k. k < length (tasks w) \<Longrightarrow> \<not> loading (pc (tasks w ! k))"
    using assms by (simp_all add: stuck_def)
  have all: "stuck ?w' \<and> downloads ?w' = downloads w \<and> length (tasks w) \<le> length (tasks ?w')
      \<and> (j < length (tasks w) \<longrightarrow> pc (tasks w ! j) = AwaitTimer \<longrightarrow> pc (tasks ?w' ! j) = AwaitTimer)"
  proof (cases e w rule: step_effect)
    case same
    with assms show ?thesis by simp
  next
    case (invoke a r t)
    have nlR: "\<not> loading Running" by (simp add: loading_def)
    have nlt: "\<not> loading (pc t)"
      using summaryD(1) [OF invoke(4)] nlR f by blast
    with summaryD(3) [OF invoke(4)] nlR
    have flags: "modelLoaded ?w' = modelLoaded w" "modelLoading ?w' = modelLoading w"
      by blast+
    from summaryD(7) [OF invoke(4)] have dl: "downloads ?w' = downloads w"
      by simp
    have "\<not> loading (pc (tasks ?w' ! k))" if "k < length (tasks ?w')" for k
      using that nl nlt invoke(2) by (cases "k < length (tasks w)") (simp_all add: nth_append less_Suc_eq)
    with flags f dl invoke(2) show ?thesis
      by (simp add: stuck_def nth_append)
  next
    case (resume i)
    let ?c = "pc (tasks w ! i)" and ?c' = "pc (tasks ?w' ! i)"
    have nlc: "\<not> loading ?c" using nl resume(2) by simp
    have nlc': "\<not> loading ?c'"
      using summaryD(1) [OF resume(3)] nlc f by blast
    with summaryD(3) [OF resume(3)] nlc
    have flags: "modelLoaded ?w' = modelLoaded w" "modelLoading ?w' = modelLoading w"
      by blast+
    from nlc have "?c \<noteq> AwaitCacheGet" by (auto simp add: loading_def)
    with summaryD(7) [OF resume(3)] have dl: "downloads ?w' = downloads w"
      by simp
    have nl': "\<not> loading (pc (tasks ?w' ! k))" if "k < length (tasks ?w')" for k
      using that nl nlc' resume(4,5) by (cases "k = i") simp_all
    have tm: "pc (tasks ?w' ! j) = AwaitTimer" if "j < length (tasks w)" "pc (tasks w ! j) = AwaitTimer"
    proof (cases "j = i")
      case True
      with that summaryD(10) [OF resume(3)] f show ?thesis by simp
    next
      case False
      with that resume(5) show ?thesis by simp
    qed
    from nl' tm flags f dl resume(4) show ?thesis
      by (simp add: stuck_def)
  qed
  from all show "stuck (step e w)" and "downloads (step e w) = downloads w"
    and "length (tasks w) \<le> length (tasks (step e w))"
    and "j < length (tasks w) \<Longrightarrow> pc (tasks w ! j) = AwaitTimer \<Longrightarrow> pc (tasks (step e w) ! j) = AwaitTimer"
    by simp_all
qed

lemma stuck_exec:
  assumes "stuck w"
  shows "stuck (exec evs w) \<and> downloads (exec evs w) = downloads w
       \<and> length (tasks w) \<le> length (tasks (exec evs w))
       \<and> (j < length (tasks w) \<longrightarrow> pc (tasks w ! j) = AwaitTimer
            \<longrightarrow> pc (tasks (exec evs w) ! j) = AwaitTimer)"
  using assms
proof (induction evs arbitrary: w)
  case Nil
  then show ?case by (simp add: exec_def)
next
  case (Cons e evs)
  have ex: "exec (e # evs) w = exec evs (step e w)"
    by (simp add: exec_def)
  note s1 = stuck_step(1) [OF Cons.prems, where e = e]
    and s2 = stuck_step(2) [OF Cons.prems, where e = e]
    and s3 = stuck_step(3) [OF Cons.prems, where e = e]
    and s4 = stuck_step(4) [OF Cons.prems, where e = e and j = j]
  from Cons.IH [OF s1] s2 s3 s4 show ?case
    unfolding ex by auto
qed

lemma notidle_step:
  assumes "modelLoaded w \<or> modelLoading w"
  shows "modelLoaded (step e w) \<or> modelLoading (step e w)"
proof -
  have *: "modelLoaded w' \<or> modelLoading w'" if "summary c c' w w'" for c c' w'
  proof (cases "loading c")
    case True
    show ?thesis
    proof (cases "loading c'")
      case True
      with summaryD(3) [OF that] \<open>loading c\<close> assms show ?thesis by simp
    next
      case False
      with summaryD(2) [OF that True] assms show ?thesis by auto
    qed
  next
    case False
    show ?thesis
    proof (cases "loading c'")
      case True
      with summaryD(1) [OF that] False assms show ?thesis by simp
    next
      case nl: False
      with summaryD(3) [OF that] False assms show ?thesis by simp
    qed
  qed
  show ?thesis
  proof (cases e w rule: step_effect)
    case same
    with assms show ?thesis by simp
  next
    case (resume i)
    from * [OF resume(3)] show ?thesis .
  next
    case (invoke a r t)
    from * [OF invoke(4)] show ?thesis .
  qed
qed

lemma checkModel_task:
  assumes "i < length (tasks w)" and "modelLoaded w \<or> modelLoading w"
  shows "tasks (checkModel i w) ! i =
          (if \<not> modelLoaded w then goto AwaitTimer (emitProgress 10 (tasks w ! i))
           else if session w = None
             then goto (Rejected (Error ''Model not loaded'')) (emitProgress 10 (tasks w ! i))
           else goto AwaitPreprocess (emitProgress 15 (emitProgress 10 (tasks w ! i))))"
  using assms by (auto simp add: checkModel_def)

lemma waiting_stepI:
  assumes "waiting_call t" and "\<not> loading c'" and "c' \<noteq> Running"
    and "sorted_wrt (<) ps" and "\<forall>p \<in> set ps. bound (pc t) < p \<and> p \<le> bound c'"
    and "bound (pc t) \<le> bound c'"
  shows "waiting_call (t \<lparr> pc := c', progress := progress t @ ps \<rparr>)"
  using assms by (fastforce simp add: waiting_call_def sorted_wrt_append)

lemma step_waiting:
  assumes "target e = Some i" and "i < length (tasks w)"
    and "modelLoaded w \<or> modelLoading w" and "waiting_call (tasks w ! i)"
  shows "waiting_call (tasks (step e w) ! i)"
proof (cases e)
  case (Invoke a b)
  with assms show ?thesis by (simp add: target_def)
next
  case (Decoded k b)
  with assms have [simp]: "k = i" by (simp add: target_def)
  show ?thesis
    using assms(2,3,4) Decoded
    by (cases "pc (tasks w ! i)")
       (auto simp add: step_def on_decoded_def checkModel_task waiting_call_def sorted_wrt_append
          bound_def loading_def)
next
  case (CacheRead k)
  with assms have [simp]: "k = i" by (simp add: target_def)
  show ?thesis
    using assms(2,3,4) CacheRead
    by (cases "pc (tasks w ! i)")
       (simp_all add: step_def on_cache_read_def waiting_call_def loading_def)
next
  case (SessionCreated k b)
  with assms have [simp]: "k = i" by (simp add: target_def)
  show ?thesis
    using assms(2,3,4) SessionCreated
    by (cases "pc (tasks w ! i)")
       (simp_all add: step_def on_session_created_def waiting_call_def loading_def)
next
  case (Fetched k r)
  with assms have [simp]: "k = i" by (simp add: target_def)
  show ?thesis
    using assms(2,3,4) Fetched
    by (cases "pc (tasks w ! i)")
       (simp_all add: step_def on_fetched_def waiting_call_def loading_def)
next
  case (ReadDone k r)
  with assms have [simp]: "k = i" by (simp add: target_def)
  show ?thesis
    using assms(2,3,4) ReadDone
    by (cases "pc (tasks w ! i)")
       (simp_all add: step_def on_read_done_def waiting_call_def loading_def)
next
  case (CacheWritten k n)
  with assms have [simp]: "k = i" by (simp add: target_def)
  show ?thesis
    using assms(2,3,4) CacheWritten
    by (cases "pc (tasks w ! i)")
       (simp_all add: step_def on_cache_written_def waiting_call_def loading_def)
next
  case (Tick k)
  with assms have [simp]: "k = i" by (simp add: target_def)
  show ?thesis
    using assms(2,3,4) Tick
    by (cases "pc (tasks w ! i)")
       (auto simp add: step_def on_tick_def waiting_call_def sorted_wrt_append bound_def loading_def)
next
  case (RunDone k b)
  with assms have [simp]: "k = i" by (simp add: target_def)
  show ?thesis
    using assms(2,3,4) RunDone
    by (cases "pc (tasks w ! i)")
       (auto simp add: step_def on_run_done_def waiting_call_def sorted_wrt_append bound_def loading_def)
next
  case (Encoded k b)
  with assms have [simp]: "k = i" by (simp add: target_def)
  show ?thesis
    using assms(2,3,4) Encoded
    by (cases "pc (tasks w ! i)")
       (auto simp add: step_def on_encoded_def waiting_call_def sorted_wrt_append bound_def loading_def)
qed

lemma invoke_waiting:
  assumes "modelLoaded w \<or> modelLoading w"
  shows "waiting_call (tasks (step (Invoke a r) w) ! length (tasks w))"
    and "length (tasks w) < length (tasks (step (Invoke a r) w))"
proof -
  let ?w0 = "w \<lparr> tasks := tasks w @ [\<lparr> pc = Running, progress = [0], ret = r \<rparr>] \<rparr>"
  have i: "length (tasks w) < length (tasks ?w0)" and f: "modelLoaded ?w0 \<or> modelLoading ?w0"
    using assms by simp_all
  show "waiting_call (tasks (step (Invoke a r) w) ! length (tasks w))"
  proof (cases a)
    case ImageElement
    then have "step (Invoke a r) w = checkModel (length (tasks w)) ?w0"
      by (simp add: step_def removeBackground_def Let_def)
    then show ?thesis
      using checkModel_task [OF i f]
      by (simp add: waiting_call_def bound_def loading_def)
  next
    case Base64String
    then show ?thesis
      by (simp add: step_def removeBackground_def Let_def waiting_call_def bound_def loading_def)
  next
    case OtherValue
    then show ?thesis
      by (simp add: step_def removeBackground_def Let_def waiting_call_def bound_def loading_def)
  qed
  show "length (tasks w) < length (tasks (step (Invoke a r) w))"
    using invoke_tasks [of a r w] by auto
qed

lemma waiting_step:
  assumes "modelLoaded w \<or> modelLoading w" and "i < length (tasks w)" and "waiting_call (tasks w ! i)"
  shows "waiting_call (tasks (step e w) ! i)" and "i < length (tasks (step e w))"
proof -
  have "waiting_call (tasks (step e w) ! i) \<and> i < length (tasks (step e w))"
  proof (cases e w rule: step_effect)
    case same
    with assms show ?thesis by simp
  next
    case (invoke a r t)
    with assms show ?thesis by (simp add: nth_append)
  next
    case (resume k)
    show ?thesis
    proof (cases "k = i")
      case True
      with step_waiting [OF resume(1,2) assms(1)] assms(2,3) resume(4) show ?thesis by simp
    next
      case False
      with resume(4,5) assms(2,3) show ?thesis by simp
    qed
  qed
  then show "waiting_call (tasks (step e w) ! i)" and "i < length (tasks (step e w))"
    by simp_all
qed

lemma waiting_exec:
  assumes "modelLoaded w \<or> modelLoading w" and "i < length (tasks w)" and "waiting_call (tasks w ! i)"
  shows "waiting_call (tasks (exec evs w) ! i)"
  using assms
proof (induction evs arbitrary: w)
  case Nil
  then show ?case by (simp add: exec_def)
next
  case (Cons e evs)
  have "exec (e # evs) w = exec evs (step e w)"
    by (simp add: exec_def)
  with Cons.IH [OF notidle_step [OF Cons.prems(1)] waiting_step(2,1) [OF Cons.prems]]
  show ?case by simp
qed

section \<open>The claims about the pixel functions\<close>

lemma preprocessImage_first:
  assumes "length data = 4 * (1024 * 1024)"
  shows "tdata (projr (preprocessImage True data)) ! 0 =
           Num (fround (js_div (real (unat (data ! 0))) 255))"
proof -
  define n :: nat where "n = 1024 * 1024"
  have np: "npix = n" and sd: "1 * 3 * side * side = 3 * n" and s: "side = 1024"
    by (simp_all add: npix_def side_def n_def)
  have len: "length data = 4 * n"
    using assms by (simp only: n_def)
  have "0 < n"
    by (simp add: n_def)
  from preprocess_full_nth(1) [OF len this]
  have "preprocess_loop n data (replicate (3 * n) (Num 0)) n ! 0 =
          Num (fround (js_div (real (unat (data ! 0))) 255))"
    by simp
  then show ?thesis
    unfolding preprocessImage_def np sd by simp
qed

text \<open>
  C3, as the code has it.  For every 1024 x 1024 RGBA buffer read back from the canvas,
  \<open>_preprocessImage\<close> returns a tensor of shape [1, 3, 1024, 1024] with 3 * 1024 * 1024
  values in planar order: the red values of all pixels, then the green ones, then the blue
  ones.  Each value is the binary64 quotient of the byte by 255, rounded to binary32 by the
  store into the \<open>Float32Array\<close>, and lies between 0 and 1.  A buffer that differs only in
  alpha bytes gives the same tensor.
\<close>

theorem preprocessImage_planar_rgb:
  assumes "length data = 4 * (1024 * 1024)"
  shows "\<exists>t. preprocessImage True data = Inr t
           \<and> dims t = [1, 3, 1024, 1024]
           \<and> length (tdata t) = 3 * (1024 * 1024)
           \<and> (\<forall>i < 1024 * 1024.
                 tdata t ! i = Num (fround (js_div (real (unat (data ! (4 * i)))) 255))
               \<and> tdata t ! (1024 * 1024 + i) = Num (fround (js_div (real (unat (data ! (4 * i + 1)))) 255))
               \<and> tdata t ! (2 * (1024 * 1024) + i) = Num (fround (js_div (real (unat (data ! (4 * i + 2)))) 255)))
           \<and> (\<forall>v \<in> set (tdata t). \<exists>r. v = Num r \<and> 0 \<le> r \<and> r \<le> 1)
           \<and> (\<forall>data'. length data' = length data
                 \<and> (\<forall>i < 1024 * 1024. \<forall>c < 3. data' ! (4 * i + c) = data ! (4 * i + c))
                 \<longrightarrow> preprocessImage True data' = preprocessImage True data)"
proof -
  define n :: nat where "n = 1024 * 1024"
  define T where
    "T = \<lparr> dims = [1, 3, 1024, 1024],
            tdata = preprocess_loop n data (replicate (3 * n) (Num 0)) n \<rparr>"
  have np: "npix = n" and sd: "1 * 3 * side * side = 3 * n" and s: "side = 1024"
    by (simp_all add: npix_def side_def n_def)
  have len: "length data = 4 * n"
    using assms by (simp only: n_def)
  have run: "preprocessImage True data = Inr T"
    unfolding preprocessImage_def np sd unfolding s T_def by simp
  have d: "dims T = [1, 3, 1024, 1024]"
    by (simp add: T_def)
  have td: "tdata T = preprocess_loop n data (replicate (3 * n) (Num 0)) n"
    by (simp add: T_def)
  have lt: "length (tdata T) = 3 * n"
    by (simp add: td)
  have vals: "\<forall>i < n. tdata T ! i = Num (fround (js_div (real (unat (data ! (4 * i)))) 255))
               \<and> tdata T ! (n + i) = Num (fround (js_div (real (unat (data ! (4 * i + 1)))) 255))
               \<and> tdata T ! (2 * n + i) = Num (fround (js_div (real (unat (data ! (4 * i + 2)))) 255))"
    unfolding td using preprocess_full_nth [OF len] by blast
  have rng: "\<forall>v \<in> set (tdata T). \<exists>r. v = Num r \<and> 0 \<le> r \<and> r \<le> 1"
  proof
    fix v assume "v \<in> set (tdata T)"
    then obtain j where j: "j < 3 * n" and v: "v = tdata T ! j"
      using lt by (metis in_set_conv_nth)
    from preprocess_full_cases [OF len j] obtain k
      where "tdata T ! j = Num (fround (js_div (real (unat (data ! k))) 255))"
      unfolding td by blast
    with v div255_unit [of "data ! k"] show "\<exists>r. v = Num r \<and> 0 \<le> r \<and> r \<le> 1"
      by blast
  qed
  have indep: "\<forall>data'. length data' = length data
                 \<and> (\<forall>i < n. \<forall>c < 3. data' ! (4 * i + c) = data ! (4 * i + c))
                 \<longrightarrow> preprocessImage True data' = preprocessImage True data"
  proof (intro allI impI)
    fix data'
    assume h: "length data' = length data
                 \<and> (\<forall>i < n. \<forall>c < 3. data' ! (4 * i + c) = data ! (4 * i + c))"
    then have "preprocess_loop n data' (replicate (3 * n) (Num 0)) n
                 = preprocess_loop n data (replicate (3 * n) (Num 0)) n"
      using len by (intro preprocess_loop_cong) simp_all
    then show "preprocessImage True data' = preprocessImage True data"
      unfolding preprocessImage_def np sd by simp
  qed
  from run d lt vals rng indep show ?thesis
    unfolding n_def by blast
qed

theorem preprocessImage_planar_rgb_witness:
  "\<exists>t. preprocessImage True (replicate (4 * (1024 * 1024)) 51) = Inr t
         \<and> dims t = [1, 3, 1024, 1024]
         \<and> length (tdata t) = 3 * (1024 * 1024)
         \<and> tdata t ! 0 = Num (13421773 / 67108864)"
proof -
  have h: "length (replicate (4 * (1024 * 1024)) (51 :: byte)) = 4 * (1024 * 1024)"
    by simp
  from preprocessImage_planar_rgb [OF h] obtain t where
    t: "preprocessImage True (replicate (4 * (1024 * 1024)) 51) = Inr t"
       "dims t = [1, 3, 1024, 1024]" "length (tdata t) = 3 * (1024 * 1024)"
    and v: "\<forall>i < 1024 * 1024.
              tdata t ! i = Num (fround (js_div (real (unat
                (replicate (4 * (1024 * 1024)) (51 :: byte) ! (4 * i)))) 255))"
    by blast
  from v have "tdata t ! 0 = Num (fround (js_div (real (unat
                (replicate (4 * (1024 * 1024)) (51 :: byte) ! (4 * 0)))) 255))"
    by (metis (no_types) mult_pos_pos zero_less_numeral)
  then have "tdata t ! 0 = Num (13421773 / 67108864)"
    by (simp add: div255_51)
  with t show ?thesis by blast
qed

text \<open>
  The claim's exact quotient fails: for a buffer of bytes 51 the first tensor value is
  13421773 / 67108864, the binary32 number next to one fifth, and not 51 / 255.
\<close>

theorem preprocessImage_float32_counterexample:
  "tdata (projr (preprocessImage True (replicate (4 * (1024 * 1024)) 51))) ! 0
     = Num (13421773 / 67108864)
   \<and> tdata (projr (preprocessImage True (replicate (4 * (1024 * 1024)) 51))) ! 0
     \<noteq> Num (real (unat (51 :: byte)) / 255)"
proof -
  have h: "length (replicate (4 * (1024 * 1024)) (51 :: byte)) = 4 * (1024 * 1024)"
    by simp
  have "tdata (projr (preprocessImage True (replicate (4 * (1024 * 1024)) 51))) ! 0
          = Num (13421773 / 67108864)"
    using preprocessImage_first [OF h] by (simp add: div255_51)
  then show ?thesis
    by simp
qed


lemma applyMask_alpha:
  assumes "length (pixels img) = 4 * width img * height img"
    and "x < width img" and "y < height img"
  shows "applyMask True img maskData =
           Inr (img \<lparr> pixels := mask_loop (width img) (height img) maskData
                    (Math_sqrt (real (length maskData))) (height img) (pixels img) \<rparr>)"
    and "mask_loop (width img) (height img) maskData
            (Math_sqrt (real (length maskData))) (height img) (pixels img)
          ! (4 * (y * width img + x) + 3) =
         pixel_alpha (width img) (height img) maskData
            (Math_sqrt (real (length maskData))) x y"
  using mask_loop_alpha [OF assms] by (simp_all add: applyMask_def)

text \<open>
  C4.  For an image whose buffer holds \<open>width * height\<close> RGBA pixels and any mask,
  \<open>_applyMask\<close> returns an image of the same size in which every red, green and blue
  byte is the one of the input, and the alpha byte of every pixel \<open>(x, y)\<close> is the value
  computed for that pixel, a byte between 0 and 255.
\<close>

theorem applyMask_writes_alpha_only:
  assumes "length (pixels img) = 4 * width img * height img"
  shows "\<exists>img'. applyMask True img maskData = Inr img'
           \<and> width img' = width img \<and> height img' = height img
           \<and> length (pixels img') = 4 * width img * height img
           \<and> (\<forall>p < width img * height img. \<forall>c < 3.
                 pixels img' ! (4 * p + c) = pixels img ! (4 * p + c))
           \<and> (\<forall>x < width img. \<forall>y < height img.
                 pixels img' ! (4 * (y * width img + x) + 3) =
                   pixel_alpha (width img) (height img) maskData
                     (Math_sqrt (real (length maskData))) x y)
           \<and> (\<forall>p < width img * height img.
                 0 \<le> uint (pixels img' ! (4 * p + 3)) \<and> uint (pixels img' ! (4 * p + 3)) \<le> 255)"
proof -
  define img' where
    "img' = img \<lparr> pixels := mask_loop (width img) (height img) maskData
                    (Math_sqrt (real (length maskData))) (height img) (pixels img) \<rparr>"
  have run: "applyMask True img maskData = Inr img'"
    by (simp add: applyMask_def img'_def)
  have px: "pixels img' = mask_loop (width img) (height img) maskData
                    (Math_sqrt (real (length maskData))) (height img) (pixels img)"
    and wh: "width img' = width img" "height img' = height img"
    by (simp_all add: img'_def)
  have len: "length (pixels img') = 4 * width img * height img"
    using assms by (simp add: px)
  have rgb: "\<forall>p < width img * height img. \<forall>c < 3.
                 pixels img' ! (4 * p + c) = pixels img ! (4 * p + c)"
    by (simp add: px mask_loop_rgb)
  have alpha: "\<forall>x < width img. \<forall>y < height img.
                 pixels img' ! (4 * (y * width img + x) + 3) =
                   pixel_alpha (width img) (height img) maskData
                     (Math_sqrt (real (length maskData))) x y"
    using mask_loop_alpha [OF assms] by (simp add: px)
  have rng: "\<forall>p < width img * height img.
                 0 \<le> uint (pixels img' ! (4 * p + 3)) \<and> uint (pixels img' ! (4 * p + 3)) \<le> 255"
  proof (intro allI impI)
    fix p
    have "uint (pixels img' ! (4 * p + 3)) < 2 ^ 8"
      using uint_bounded [of "pixels img' ! (4 * p + 3)"] by simp
    then show "0 \<le> uint (pixels img' ! (4 * p + 3)) \<and> uint (pixels img' ! (4 * p + 3)) \<le> 255"
      by simp
  qed
  from run wh len rgb alpha rng show ?thesis
    by blast
qed

theorem applyMask_writes_alpha_only_witness:
  "applyMask True \<lparr> width = 1, height = 1, pixels = [10, 20, 30, 40] \<rparr> [Num 1]
     = Inr \<lparr> width = 1, height = 1, pixels = [10, 20, 30, 255] \<rparr>"
proof -
  let ?img = "\<lparr> width = 1, height = 1, pixels = [10, 20, 30, 40 :: byte] \<rparr>"
  have h: "length (pixels ?img) = 4 * width ?img * height ?img"
    by simp
  from applyMask_writes_alpha_only [OF h, of "[Num 1]"] obtain img' where
    r: "applyMask True ?img [Num 1] = Inr img'"
    by blast
  have "pixel_alpha (Suc 0) (Suc 0) [Num 1] 1 0 0 = 255"
    by (simp add: pixel_alpha_def maskIdx_of_def maskX_of_def maskY_of_def Math_floor_def
        js_add_def js_mul_def js_div_def typed_read_num_def or_zero_def alpha_byte_one)
  then have "mask_loop 1 1 [Num 1] 1 1 [10, 20, 30, 40] = [10, 20, 30, 255]"
    by (simp add: mask_loop_def row_loop_def pixel_step_def upt_small)
  then have "img' = \<lparr> width = 1, height = 1, pixels = [10, 20, 30, 255] \<rparr>"
    using r by (simp add: applyMask_def Math_sqrt_def)
  with r show ?thesis
    by simp
qed

text \<open>
  C1, as the code has it.  When the mask holds \<open>M * M\<close> values with \<open>M\<close> below \<open>2 ^ 26\<close>, the
  side computed is \<open>M\<close>, and for every pixel \<open>(x, y)\<close> of a \<open>width * height\<close> image with both
  dimensions below \<open>2 ^ 27\<close> the alpha byte written is the one of mask cell
  \<open>maskX = floor ((x / width) * M)\<close>, \<open>maskY = floor ((y / height) * M)\<close>, where the quotient
  and the product are each rounded to binary64; both lie below \<open>M\<close>, and the cell is read at
  index \<open>maskY * M + maskX\<close> with an absent value (and \<open>NaN\<close>) taken as 0.  The byte stored
  for a finite value \<open>v\<close> is \<open>round (v * 255)\<close>, the product rounded to binary64, clamped to
  0..255, which is \<open>round (v * 255)\<close> itself for \<open>v\<close> between 0 and 1.
\<close>

theorem applyMask_square_mask_nearest:
  assumes "length (pixels img) = 4 * width img * height img"
    and "length maskData = M * M" and "M < 2 ^ 26"
    and "x < width img" and "y < height img"
    and "width img < 2 ^ 27" and "height img < 2 ^ 27"
  shows "\<exists>img' maskX maskY. applyMask True img maskData = Inr img'
           \<and> Math_sqrt (real (length maskData)) = real M
           \<and> int maskX = \<lfloor>js_mul (js_div (real x) (real (width img))) (real M)\<rfloor>
           \<and> int maskY = \<lfloor>js_mul (js_div (real y) (real (height img))) (real M)\<rfloor>
           \<and> (0 < M \<longrightarrow> maskX < M \<and> maskY < M)
           \<and> pixels img' ! (4 * (y * width img + x) + 3) =
               alpha_byte (or_zero (typed_read maskData (maskY * M + maskX)))
           \<and> (\<forall>v. alpha_byte (Num v) = toUint8Clamp (Math_round (js_mul v 255)))
           \<and> (\<forall>v. 0 \<le> v \<and> v \<le> 1 \<longrightarrow> uint (alpha_byte (Num v)) = Math_round (js_mul v 255))"
proof -
  define mx where "mx = nat (maskX_of (width img) (real M) x)"
  define my where "my = nat (maskY_of (height img) (real M) y)"
  define img' where
    "img' = img \<lparr> pixels := mask_loop (width img) (height img) maskData
                    (Math_sqrt (real (length maskData))) (height img) (pixels img) \<rparr>"
  have run: "applyMask True img maskData = Inr img'"
    and alpha: "pixels img' ! (4 * (y * width img + x) + 3) =
                   pixel_alpha (width img) (height img) maskData
                     (Math_sqrt (real (length maskData))) x y"
    using applyMask_alpha [OF assms(1,4,5), of maskData] by (simp_all add: img'_def)
  have sq: "Math_sqrt (real (length maskData)) = real M"
    using assms(3) by (simp only: assms(2) Math_sqrt_square)
  have ix: "int mx = \<lfloor>js_mul (js_div (real x) (real (width img))) (real M)\<rfloor>"
    using mask_coord(1) [OF assms(4,6,3)]
    by (simp add: mx_def) (simp add: maskX_of_def Math_floor_def)
  have iy: "int my = \<lfloor>js_mul (js_div (real y) (real (height img))) (real M)\<rfloor>"
    using mask_coord(4) [OF assms(5,7,3)]
    by (simp add: my_def) (simp add: maskY_of_def Math_floor_def)
  have rng: "0 < M \<longrightarrow> mx < M \<and> my < M"
    using mask_coord(1,2) [OF assms(4,6,3)] mask_coord(4,5) [OF assms(5,7,3)]
    by (auto simp add: mx_def my_def nat_less_iff)
  have px: "pixels img' ! (4 * (y * width img + x) + 3) =
               alpha_byte (or_zero (typed_read maskData (my * M + mx)))"
    using alpha pixel_alpha_whole_side [OF assms(4,5,6,7,3), of maskData]
    by (simp add: sq mx_def my_def)
  have ab: "\<forall>v. alpha_byte (Num v) = toUint8Clamp (Math_round (js_mul v 255))"
    by (simp add: alpha_byte_def)
  have unit: "\<forall>v. 0 \<le> v \<and> v \<le> 1 \<longrightarrow> uint (alpha_byte (Num v)) = Math_round (js_mul v 255)"
    using alpha_byte_unit by blast
  from run sq ix iy rng px ab unit show ?thesis
    by blast
qed

text \<open>
  A 22 x 22 mask on an image 22 pixels wide: the binary64 product \<open>(15 / 22) * 22\<close> is
  below 15, so pixel 15 of the first row takes the value of mask cell 14.
\<close>

theorem applyMask_square_mask_nearest_witness:
  "\<exists>img'. applyMask True \<lparr> width = 22, height = 1, pixels = replicate 88 7 \<rparr>
             ((replicate 484 (Num 0))[14 := Num 1]) = Inr img'
         \<and> pixels img' ! 63 = 255"
proof -
  let ?img = "\<lparr> width = 22, height = 1, pixels = replicate 88 (7 :: byte) \<rparr>"
  let ?m = "(replicate 484 (Num 0))[14 := Num 1]"
  have h1: "length (pixels ?img) = 4 * width ?img * height ?img"
    and h2: "length ?m = 22 * 22" and h3: "(22 :: nat) < 2 ^ 26"
    and h4: "15 < width ?img" and h5: "0 < height ?img"
    and h6: "width ?img < 2 ^ 27" and h7: "height ?img < 2 ^ 27"
    by simp_all
  from applyMask_square_mask_nearest [OF h1 h2 h3 h4 h5 h6 h7] obtain img' maskX maskY where
    r: "applyMask True ?img ?m = Inr img'"
    and mx: "int maskX = \<lfloor>js_mul (js_div (real 15) (real (width ?img))) (real 22)\<rfloor>"
    and my: "int maskY = \<lfloor>js_mul (js_div (real 0) (real (height ?img))) (real 22)\<rfloor>"
    and px: "pixels img' ! (4 * (0 * width ?img + 15) + 3) =
               alpha_byte (or_zero (typed_read ?m (maskY * 22 + maskX)))"
    by blast
  from mx have "maskX = 14"
    by (simp add: mask_cell_15_22)
  moreover from my have "maskY = 0"
    by (simp add: js_div_def js_mul_def)
  ultimately have "pixels img' ! 63 = 255"
    using px by (simp add: typed_read_def or_zero_def alpha_byte_one)
  with r show ?thesis
    by blast
qed

text \<open>
  The claim's floored side fails on a mask whose length is not a square: for a 1 x 2 image
  and five mask values, all 1, the side is the binary64 square root of 5, the code reads
  that index for the second pixel, finds nothing there and writes alpha 0, where the
  floored side 2 selects index 2 and gives 255.
\<close>

theorem applyMask_floored_side_counterexample:
  "applyMask True \<lparr> width = 1, height = 2, pixels = [0, 0, 0, 0, 0, 0, 0, 0] \<rparr>
       (replicate 5 (Num 1))
     = Inr \<lparr> width = 1, height = 2, pixels = [0, 0, 0, 255, 0, 0, 0, 0] \<rparr>
   \<and> spec_pixel_alpha 1 2 (replicate 5 (Num 1)) 0 1 = 255"
proof -
  have p0: "pixel_alpha 1 2 (replicate 5 (Num 1)) (Math_sqrt 5) 0 0 = 255"
    unfolding pixel_alpha_def sqrt5_indices
    by (simp add: typed_read_num_def or_zero_def alpha_byte_one)
  have p1: "pixel_alpha 1 2 (replicate 5 (Num 1)) (Math_sqrt 5) 0 1 = 0"
    unfolding pixel_alpha_def sqrt5_indices
    by (simp add: typed_read_num_def or_zero_def alpha_byte_zero)
  have "mask_loop 1 2 (replicate 5 (Num 1)) (Math_sqrt 5) 2 [0, 0, 0, 0, 0, 0, 0, 0]
          = [0, 0, 0, 255, 0, 0, 0, 0]"
    using p0 p1 by (simp add: mask_loop_def row_loop_def pixel_step_def upt_small)
  moreover have "spec_pixel_alpha 1 2 (replicate 5 (Num 1)) 0 1 = 255"
    by (simp add: spec_pixel_alpha_def floor_sqrt5 or_zero_def alpha_byte_one Let_def)
  ultimately show ?thesis
    by (simp add: applyMask_def)
qed


section \<open>The claims about the cache and the fetcher\<close>

text \<open>
  Where no call into the storage throws, the two functions do what their handlers are
  written for.  With a database that opens, answers the \<open>get\<close> request and stores the \<open>put\<close>
  request, storing a buffer under a key and reading that key gives the buffer back.
  Without \<open>window.indexedDB\<close>, or when the open request ends in \<open>onerror\<close>, storing resolves
  and leaves the storage as it is, and reading resolves to nothing, a cache miss.
\<close>

lemma cache_round_trip:
  "(\<forall>db. idb = Some db \<and> opens db = OpenSuccess \<and> transaction_ok db \<and> get_ok db \<and> put_ok db
        \<longrightarrow> (\<exists>idb'. cacheModel idb key bytes now = Some (Inr idb')
               \<and> getCachedModel idb' key = Some (Inr (Some bytes))))
   \<and> (idb = None \<or> (\<exists>db. idb = Some db \<and> opens db = OpenError) \<longrightarrow>
         cacheModel idb key bytes now = Some (Inr idb)
       \<and> getCachedModel idb key = Some (Inr None))"
  by (auto simp add: cacheModel_def getCachedModel_def)

text \<open>
  C6 in a page to which storage is denied, where \<open>indexedDB.open\<close> throws a
  \<open>SecurityError\<close>: the executors of lines 206 and 258 do not catch it, so the promise of
  \<open>_cacheModel\<close> rejects, and so does the promise of \<open>_getCachedModel\<close>, where the claim has
  no exception from the one and a cache miss from the other.
\<close>

theorem cache_open_throws:
  "cacheModel
      (Some \<lparr> opens = OpenThrows, transaction_ok = True, get_ok = True, put_ok = True,
              models = Map.empty \<rparr>) ''rmbg_model_v1.4'' [1, 2, 3] 0
     = Some (Inl (DOMException ''SecurityError''))
   \<and> getCachedModel
      (Some \<lparr> opens = OpenThrows, transaction_ok = True, get_ok = True, put_ok = True,
              models = Map.empty \<rparr>) ''rmbg_model_v1.4''
     = Some (Inl (DOMException ''SecurityError''))"
  by (simp add: cacheModel_def getCachedModel_def)

text \<open>
  C8, as the code has it.  The fetch throws \<open>Model download failed\<close> exactly when the
  response is not \<open>ok\<close>, and \<open>Response body is null\<close> exactly when the response is \<open>ok\<close>
  and has no body.  It also fails, with the rejection of the host handed on, when \<open>fetch\<close>
  itself rejects and when a \<open>read\<close> rejects before the stream ends.  Where no call into the
  storage throws (the storage is absent, its open request ends in \<open>onerror\<close>, or the
  database opens, whether or not the \<open>put\<close> request then stores the record), the fetch
  returns a buffer exactly when the response is \<open>ok\<close>, has a body, and the stream ends; the
  buffer is then the chunks received, concatenated in order, and the last percent passed to
  the callback is 75.
\<close>

theorem download_outcome:
  "(let result = downloadAndCacheModelWithProgress (FetchResolves r reads) idb key now in
      ((\<exists>ps st. result = Some (ps, Inl (Error ''Model download failed''), st)) \<longleftrightarrow> \<not> ok r)
    \<and> ((\<exists>ps st. result = Some (ps, Inl (Error ''Response body is null''), st))
          \<longleftrightarrow> ok r \<and> \<not> has_body r)
    \<and> ((\<exists>ps st. result = Some (ps, Inl (Rejection ''read''), st))
          \<longleftrightarrow> ok r \<and> has_body r \<and> (\<exists>cs rest. reads = map Chunk cs @ ReadError # rest))
    \<and> (no_throw idb \<longrightarrow>
          ((\<exists>ps buf st. result = Some (ps, Inr buf, st))
             \<longleftrightarrow> ok r \<and> has_body r \<and> (\<exists>cs rest. reads = map Chunk cs @ EndOfStream # rest)))
    \<and> (\<forall>cs rest. no_throw idb \<and> ok r \<and> has_body r
            \<and> reads = map Chunk cs @ EndOfStream # rest
          \<longrightarrow> (\<exists>ps st. result = Some (ps @ [75], Inr (concat cs), st))))
   \<and> downloadAndCacheModelWithProgress FetchRejects idb key now
        = Some ([], Inl (Rejection ''fetch''), idb)"
proof -
  define result where "result = downloadAndCacheModelWithProgress (FetchResolves r reads) idb key now"
  have rej: "downloadAndCacheModelWithProgress FetchRejects idb key now
        = Some ([], Inl (Rejection ''fetch''), idb)"
    by (simp add: downloadAndCacheModelWithProgress_def)
  have R: "\<exists>ps. result = Some (ps, Inl (Rejection ''read''), idb)"
    if "ok r" "has_body r" "reads = map Chunk cs @ ReadError # rest" for cs rest
    unfolding result_def using that by (rule download_reads(2))
  have E0: "result = None
            \<or> (\<exists>ps. result = Some (ps @ [75], Inl (DOMException ''SecurityError''), idb))
            \<or> (\<exists>ps st. result = Some (ps @ [75], Inr (concat cs), st))"
    if "ok r" "has_body r" "reads = map Chunk cs @ EndOfStream # rest" for cs rest
  proof -
    from download_reads(3) [OF that, where idb = idb and key = key and now = now] obtain ps where
      res: "result = (case cacheModel idb key (concat cs) now of
                       None \<Rightarrow> None
                     | Some (Inl e) \<Rightarrow> Some (ps @ [75], Inl e, idb)
                     | Some (Inr idb') \<Rightarrow> Some (ps @ [75], Inr (concat cs), idb'))"
      unfolding result_def by (elim exE)
    from cacheModel_cases [of idb key "concat cs" now] show ?thesis
    proof (elim disjE exE)
      assume "cacheModel idb key (concat cs) now = None"
      with res show ?thesis by simp
    next
      assume "cacheModel idb key (concat cs) now = Some (Inl (DOMException ''SecurityError''))"
      with res show ?thesis by simp
    next
      fix idb' assume "cacheModel idb key (concat cs) now = Some (Inr idb')"
      with res show ?thesis by simp
    qed
  qed
  have E: "\<exists>ps st. result = Some (ps @ [75], Inr (concat cs), st)"
    if "ok r" "has_body r" "reads = map Chunk cs @ EndOfStream # rest" "no_throw idb" for cs rest
  proof -
    from download_reads(3) [OF that(1,2,3), where idb = idb and key = key and now = now]
    obtain ps where
      res: "result = (case cacheModel idb key (concat cs) now of
                       None \<Rightarrow> None
                     | Some (Inl e) \<Rightarrow> Some (ps @ [75], Inl e, idb)
                     | Some (Inr idb') \<Rightarrow> Some (ps @ [75], Inr (concat cs), idb'))"
      unfolding result_def by (elim exE)
    from cacheModel_total [OF that(4), of key "concat cs" now] obtain idb' where
      "cacheModel idb key (concat cs) now = Some (Inr idb')"
      by (elim exE)
    with res have "result = Some (ps @ [75], Inr (concat cs), idb')"
      by simp
    then show ?thesis
      by (intro exI)
  qed
  have split: thesis
    if "\<not> ok r \<Longrightarrow> thesis" and "ok r \<Longrightarrow> \<not> has_body r \<Longrightarrow> thesis"
      and "\<And>cs. ok r \<Longrightarrow> has_body r \<Longrightarrow> reads = map Chunk cs \<Longrightarrow> thesis"
      and "\<And>cs rest. ok r \<Longrightarrow> has_body r \<Longrightarrow> reads = map Chunk cs @ ReadError # rest \<Longrightarrow> thesis"
      and "\<And>cs rest. ok r \<Longrightarrow> has_body r \<Longrightarrow> reads = map Chunk cs @ EndOfStream # rest \<Longrightarrow> thesis"
    for thesis
  proof (cases "ok r \<and> has_body r")
    case False
    with that(1,2) show thesis by (cases "ok r") simp_all
  next
    case True
    from reads_cases [of reads] show thesis
    proof (elim disjE exE)
      fix cs assume "reads = map Chunk cs"
      with True that(3) show thesis by simp
    next
      fix cs rest assume "reads = map Chunk cs @ ReadError # rest"
      with True that(4) show thesis by simp
    next
      fix cs rest assume "reads = map Chunk cs @ EndOfStream # rest"
      with True that(5) show thesis by simp
    qed
  qed
  consider (bad) "\<not> ok r" | (nobody) "ok r" "\<not> has_body r"
    | (pending) cs where "ok r" "has_body r" "reads = map Chunk cs"
    | (broken) cs rest where "ok r" "has_body r" "reads = map Chunk cs @ ReadError # rest"
    | (complete) cs rest where "ok r" "has_body r" "reads = map Chunk cs @ EndOfStream # rest"
    by (rule split)
  then have "((\<exists>ps st. result = Some (ps, Inl (Error ''Model download failed''), st)) \<longleftrightarrow> \<not> ok r)
    \<and> ((\<exists>ps st. result = Some (ps, Inl (Error ''Response body is null''), st))
          \<longleftrightarrow> ok r \<and> \<not> has_body r)
    \<and> ((\<exists>ps st. result = Some (ps, Inl (Rejection ''read''), st))
          \<longleftrightarrow> ok r \<and> has_body r \<and> (\<exists>cs rest. reads = map Chunk cs @ ReadError # rest))
    \<and> (no_throw idb \<longrightarrow>
          ((\<exists>ps buf st. result = Some (ps, Inr buf, st))
             \<longleftrightarrow> ok r \<and> has_body r \<and> (\<exists>cs rest. reads = map Chunk cs @ EndOfStream # rest)))
    \<and> (\<forall>cs rest. no_throw idb \<and> ok r \<and> has_body r
            \<and> reads = map Chunk cs @ EndOfStream # rest
          \<longrightarrow> (\<exists>ps st. result = Some (ps @ [75], Inr (concat cs), st)))"
  proof cases
    case bad
    then have "result = Some ([], Inl (Error ''Model download failed''), idb)"
      unfolding result_def by (rule download_bad_response)
    with bad show ?thesis by simp
  next
    case nobody
    then have "result = Some ([], Inl (Error ''Response body is null''), idb)"
      unfolding result_def by (rule download_bad_response)
    with nobody show ?thesis by simp
  next
    case pending
    have res: "result = None"
      unfolding result_def using pending by (rule download_reads(1))
    have okr: "ok r" "has_body r" by fact+
    have noR: "\<not> (\<exists>cs' rest'. reads = map Chunk cs' @ ReadError # rest')"
      unfolding pending(3) using reads_exclusive(1) [of cs] by simp
    have noE: "\<not> (\<exists>cs' rest'. reads = map Chunk cs' @ EndOfStream # rest')"
      unfolding pending(3) using reads_exclusive(2) [of cs] by simp
    from res noR noE okr show ?thesis by simp
  next
    case broken
    have okr: "ok r" "has_body r" by fact+
    from R [OF broken] obtain ps where res: "result = Some (ps, Inl (Rejection ''read''), idb)"
      by (elim exE)
    have yesR: "\<exists>cs' rest'. reads = map Chunk cs' @ ReadError # rest'"
      using broken(3) by (intro exI)
    have noE: "\<not> (\<exists>cs' rest'. reads = map Chunk cs' @ EndOfStream # rest')"
      unfolding broken(3) using reads_exclusive(3) [of cs rest] by simp
    from res yesR noE okr show ?thesis by simp
  next
    case complete
    have okr: "ok r" "has_body r" by fact+
    have noR: "\<not> (\<exists>cs' rest'. reads = map Chunk cs' @ ReadError # rest')"
    proof
      assume "\<exists>cs' rest'. reads = map Chunk cs' @ ReadError # rest'"
      then obtain cs' rest' where "reads = map Chunk cs' @ ReadError # rest'"
        by (elim exE)
      with complete(3) reads_exclusive(3) [of cs' rest' cs rest] show False by simp
    qed
    have yesE: "\<exists>cs' rest'. reads = map Chunk cs' @ EndOfStream # rest'"
      using complete(3) by (intro exI)
    have all: "\<forall>cs' rest'. no_throw idb \<and> ok r \<and> has_body r
                 \<and> reads = map Chunk cs' @ EndOfStream # rest'
          \<longrightarrow> (\<exists>ps st. result = Some (ps @ [75], Inr (concat cs'), st))"
      using E by (intro allI impI) (elim conjE)
    have c: "\<not> (\<exists>ps st. result = Some (ps, Inl (Error ''Model download failed''), st))
      \<and> \<not> (\<exists>ps st. result = Some (ps, Inl (Error ''Response body is null''), st))
      \<and> \<not> (\<exists>ps st. result = Some (ps, Inl (Rejection ''read''), st))"
      using E0 [OF complete] by (elim disjE exE) simp_all
    note c1 = c [THEN conjunct1] and c2 = c [THEN conjunct2, THEN conjunct1]
      and c3 = c [THEN conjunct2, THEN conjunct2]
    have c4: "no_throw idb \<longrightarrow> (\<exists>ps buf st. result = Some (ps, Inr buf, st))"
    proof
      assume "no_throw idb"
      from E [OF complete this] obtain ps st where "result = Some (ps @ [75], Inr (concat cs), st)"
        by (elim exE)
      then show "\<exists>ps buf st. result = Some (ps, Inr buf, st)"
        by (intro exI)
    qed
    show ?thesis
      using c1 c2 c3 c4 noR yesE okr all by (intro conjI) (simp_all only: simp_thms)
  qed
  with rej show ?thesis
    unfolding result_def Let_def by blast
qed

text \<open>
  A database that opens and whose \<open>put\<close> request fails: the fetch returns the three bytes
  received, and the storage is as before.
\<close>

theorem download_outcome_witness:
  "\<exists>ps st. downloadAndCacheModelWithProgress
      (FetchResolves \<lparr> ok = True, has_body = True, content_length = Missing \<rparr>
         [Chunk [1, 2], Chunk [3], EndOfStream])
      (Some \<lparr> opens = OpenSuccess, transaction_ok = True, get_ok = True, put_ok = False,
              models = Map.empty \<rparr>) ''rmbg_model_v1.4'' 0
     = Some (ps @ [75], Inr [1, 2, 3], st)"
proof -
  let ?r = "\<lparr> ok = True, has_body = True, content_length = Missing \<rparr>"
  let ?reads = "[Chunk [1, 2], Chunk [3], EndOfStream]"
  let ?idb = "Some \<lparr> opens = OpenSuccess, transaction_ok = True, get_ok = True, put_ok = False,
                     models = Map.empty \<rparr>"
  have h: "no_throw ?idb \<and> ok ?r \<and> has_body ?r
             \<and> ?reads = map Chunk [[1, 2], [3]] @ EndOfStream # []"
    by (simp add: no_throw_def)
  from download_outcome [of ?r ?reads ?idb "''rmbg_model_v1.4''" 0]
  have "\<forall>cs rest. no_throw ?idb \<and> ok ?r \<and> has_body ?r
            \<and> ?reads = map Chunk cs @ EndOfStream # rest
          \<longrightarrow> (\<exists>ps st. downloadAndCacheModelWithProgress (FetchResolves ?r ?reads) ?idb
                  ''rmbg_model_v1.4'' 0 = Some (ps @ [75], Inr (concat cs), st))"
    unfolding Let_def by (elim conjE)
  then have "\<exists>ps st. downloadAndCacheModelWithProgress (FetchResolves ?r ?reads) ?idb
                  ''rmbg_model_v1.4'' 0 = Some (ps @ [75], Inr (concat [[1, 2], [3]]), st)"
    using h by (elim allE impE)
  then show ?thesis
    by simp
qed

text \<open>
  The claim fails in both directions.  A response that is \<open>ok\<close> and has a body, whose
  second read rejects, makes the fetch fail with that rejection, a failure of the network
  while the model is fetched.  And a failure of the cache write does make the fetch fail:
  where \<open>indexedDB.open\<close> throws, the fetch has received the whole body, passes 75 to the
  callback and then fails with the exception of the storage.
\<close>

theorem download_failure_counterexample:
  "downloadAndCacheModelWithProgress
      (FetchResolves \<lparr> ok = True, has_body = True, content_length = Missing \<rparr>
         [Chunk [1], ReadError]) None ''rmbg_model_v1.4'' 0
     = Some ([], Inl (Rejection ''read''), None)
   \<and> DownloadError (Rejection ''read'')
   \<and> downloadAndCacheModelWithProgress
      (FetchResolves \<lparr> ok = True, has_body = True, content_length = Missing \<rparr>
         [Chunk [1], EndOfStream])
      (Some \<lparr> opens = OpenThrows, transaction_ok = True, get_ok = True, put_ok = True,
              models = Map.empty \<rparr>) ''rmbg_model_v1.4'' 0
     = Some ([75], Inl (DOMException ''SecurityError''),
         Some \<lparr> opens = OpenThrows, transaction_ok = True, get_ok = True, put_ok = True,
                models = Map.empty \<rparr>)"
  by (simp add: downloadAndCacheModelWithProgress_def on_response_def parse_length_def
      on_chunk_def DownloadError_def assemble_def typed_set_def cacheModel_def)

text \<open>
  C9 at a response whose \<open>content-length\<close> is smaller than the body, 100 against 200 bytes
  in one chunk: the percent passed to the callback is \<open>10 + round (200 / 100 * 60) = 130\<close>,
  outside the band from 10 to 70 that the claim and the comment of line 148 give.
\<close>

theorem download_percent_above_band:
  "downloadAndCacheModelWithProgress
      (FetchResolves \<lparr> ok = True, has_body = True, content_length = Numeric 100 \<rparr>
         [Chunk (replicate 200 0), EndOfStream]) None ''rmbg_model_v1.4'' 0
     = Some ([130, 75], Inr (replicate 200 0), None)"
  by (simp add: downloadAndCacheModelWithProgress_def on_response_def parse_length_def
      on_chunk_def js_mul_def js_div_def binary64_numeral Math_round_def assemble_def
      typed_set_def cacheModel_def)


section \<open>The claims about the orchestrator\<close>

text \<open>
  C7.  A call whose input is neither an image element nor a string is rejected at once
  with the input error: the only thing it has done is to pass 0 to the progress callback.
  No host operation is started, and the storage and the fields of the instance are as
  before.
\<close>

theorem removeBackground_rejects_other_input:
  "tasks (step (Invoke OtherValue r) w) =
       tasks w @ [\<lparr> pc = Rejected (Error ''Input must be an HTMLImageElement or a base64 string''),
                    progress = [0], ret = r \<rparr>]
   \<and> io_log (step (Invoke OtherValue r) w) = io_log w
   \<and> indexedDB (step (Invoke OtherValue r) w) = indexedDB w
   \<and> session (step (Invoke OtherValue r) w) = session w
   \<and> modelLoaded (step (Invoke OtherValue r) w) = modelLoaded w
   \<and> modelLoading (step (Invoke OtherValue r) w) = modelLoading w"
  by (simp add: step_def removeBackground_def update_task_def goto_def)

theorem removeBackground_rejects_other_input_witness:
  "tasks (step (Invoke OtherValue ReturnImage) (new_instance ''rmbg_model_v1.4'' None True True)) =
       [\<lparr> pc = Rejected (Error ''Input must be an HTMLImageElement or a base64 string''),
          progress = [0], ret = ReturnImage \<rparr>]
   \<and> io_log (step (Invoke OtherValue ReturnImage) (new_instance ''rmbg_model_v1.4'' None True True)) = []"
  using removeBackground_rejects_other_input
          [of ReturnImage "new_instance ''rmbg_model_v1.4'' None True True"]
  by (simp add: new_instance_def)

text \<open>
  C10.  When a call is inside the model load and a step rejects it, then in every state
  reached afterwards \<open>modelLoading\<close> is still true and \<open>modelLoaded\<close> false, the number of
  downloads started is what it was, no call is inside the load, every call that waits in
  the timer loop still waits there whatever happens next, and every later call that comes
  to the model branches (at once with an image, after decoding with a string) enters the
  timer loop.
\<close>

theorem failed_load_never_recovers:
  assumes "w = exec evs (new_instance key db has_ort has_canvas)"
    and "i < length (tasks w)" and "loading (pc (tasks w ! i))"
    and "pc (tasks (step e w) ! i) = Rejected err"
    and "w' = exec evs' (step e w)"
  shows "modelLoading w' \<and> \<not> modelLoaded w'
       \<and> downloads w' = downloads w
       \<and> (\<forall>j < length (tasks w'). \<not> loading (pc (tasks w' ! j)))
       \<and> (\<forall>j < length (tasks w'). pc (tasks w' ! j) = AwaitTimer
             \<longrightarrow> pc (tasks (exec evs'' w') ! j) = AwaitTimer)
       \<and> pc (tasks (step (Invoke ImageElement r) w') ! length (tasks w')) = AwaitTimer
       \<and> (\<forall>j < length (tasks w'). pc (tasks w' ! j) = AwaitDecode
             \<longrightarrow> pc (tasks (step (Decoded j True) w') ! j) = AwaitTimer)"
proof -
  have "inv w"
    unfolding assms(1) by (intro inv_exec inv_new_instance)
  from stuck_after_reject [OF this assms(2,3,4)]
  have st: "stuck (step e w)" and dl: "downloads (step e w) = downloads w"
    by simp_all
  from stuck_exec [OF st, of evs'] have st': "stuck w'" and dl': "downloads w' = downloads w"
    using dl by (simp_all add: assms(5))
  then have f: "modelLoading w'" "\<not> modelLoaded w'"
    and nl: "\<forall>j < length (tasks w'). \<not> loading (pc (tasks w' ! j))"
    by (simp_all add: stuck_def)
  have tm: "\<forall>j < length (tasks w'). pc (tasks w' ! j) = AwaitTimer
             \<longrightarrow> pc (tasks (exec evs'' w') ! j) = AwaitTimer"
    using stuck_exec [OF st', of evs''] by blast
  have iv: "pc (tasks (step (Invoke ImageElement r) w') ! length (tasks w')) = AwaitTimer"
  proof -
    let ?w0 = "w' \<lparr> tasks := tasks w' @ [\<lparr> pc = Running, progress = [0], ret = r \<rparr>] \<rparr>"
    have "step (Invoke ImageElement r) w' = checkModel (length (tasks w')) ?w0"
      by (simp add: step_def removeBackground_def Let_def)
    moreover have "pc (tasks (checkModel (length (tasks w')) ?w0) ! length (tasks w')) = AwaitTimer"
      using f by (simp add: checkModel_pc)
    ultimately show ?thesis by simp
  qed
  have dc: "\<forall>j < length (tasks w'). pc (tasks w' ! j) = AwaitDecode
             \<longrightarrow> pc (tasks (step (Decoded j True) w') ! j) = AwaitTimer"
    using f by (simp add: step_def on_decoded_def checkModel_pc)
  from f dl' nl tm iv dc show ?thesis
    by blast
qed

theorem failed_load_never_recovers_witness:
  "modelLoading (exec [Invoke ImageElement ReturnImage, Tick 1]
       (step (Fetched 0 None) (exec [Invoke ImageElement ReturnImage, CacheRead 0]
          (new_instance ''rmbg_model_v1.4'' None True True))))
   \<and> pc (tasks (exec [Tick 1, Tick 1] (exec [Invoke ImageElement ReturnImage, Tick 1]
       (step (Fetched 0 None) (exec [Invoke ImageElement ReturnImage, CacheRead 0]
          (new_instance ''rmbg_model_v1.4'' None True True))))) ! 1) = AwaitTimer"
proof -
  let ?w = "exec [Invoke ImageElement ReturnImage, CacheRead 0]
          (new_instance ''rmbg_model_v1.4'' None True True)"
  let ?w' = "exec [Invoke ImageElement ReturnImage, Tick 1] (step (Fetched 0 None) ?w)"
  have w: "?w = \<lparr> session = None, modelLoaded = False, modelLoading = True,
       modelCacheKey = ''rmbg_model_v1.4'',
       tasks = [\<lparr> pc = AwaitFetch, progress = [0, 5, 10], ret = ReturnImage \<rparr>],
       indexedDB = None, ort = True, canvas2d = True, io_log = [FetchModel] \<rparr>"
    by (simp add: exec_def step_def new_instance_def removeBackground_def checkModel_def
        loadModelWithProgress_def on_cache_read_def getCachedModel_def update_task_def
        goto_def emitProgress_def start_def)
  have h2: "0 < length (tasks ?w)" and h3: "loading (pc (tasks ?w ! 0))"
    and h4: "pc (tasks (step (Fetched 0 None) ?w) ! 0) = Rejected (Rejection ''fetch'')"
    unfolding w by (simp_all add: loading_def step_def on_fetched_def update_task_def goto_def)
  have w': "pc (tasks ?w' ! 1) = AwaitTimer" "1 < length (tasks ?w')"
    unfolding w
    by (simp_all add: exec_def step_def on_fetched_def removeBackground_def checkModel_def
        on_tick_def update_task_def goto_def emitProgress_def)
  from failed_load_never_recovers [OF refl h2 h3 h4 refl, of "[Invoke ImageElement ReturnImage, Tick 1]"
      "[Tick 1, Tick 1]"] w'
  show ?thesis
    by blast
qed

text \<open>
  The two branches of lines 59 to 67: a call made while the model of the instance is
  loaded or is being loaded (so that the call does not load it itself) passes strictly
  increasing percents to the progress callback, whatever its input is and whatever happens
  next.
\<close>

lemma progress_increasing_without_own_load:
  assumes "modelLoaded w \<or> modelLoading w"
  shows "sorted_wrt (<) (progress (tasks (exec evs (step (Invoke a r) w)) ! length (tasks w)))"
proof -
  have "waiting_call (tasks (exec evs (step (Invoke a r) w)) ! length (tasks w))"
    using assms by (intro waiting_exec notidle_step invoke_waiting)
  then show ?thesis
    by (simp add: waiting_call_def)
qed

lemma progress_increasing_after_load:
  "sorted_wrt (<) (progress (tasks (exec [Decoded 0 True, Tick 0, RunDone 0 True]
      (step (Invoke Base64String ReturnBase64)
         \<lparr> session = Some [1], modelLoaded = True, modelLoading = False,
           modelCacheKey = ''rmbg_model_v1.4'', tasks = [], indexedDB = None, ort = True,
           canvas2d = True, io_log = [] \<rparr>)) ! 0))
   \<and> progress (tasks (exec [Decoded 0 True, Tick 0, RunDone 0 True]
      (step (Invoke Base64String ReturnBase64)
         \<lparr> session = Some [1], modelLoaded = True, modelLoading = False,
           modelCacheKey = ''rmbg_model_v1.4'', tasks = [], indexedDB = None, ort = True,
           canvas2d = True, io_log = [] \<rparr>)) ! 0) = [0, 2, 10, 15, 35, 70, 90, 100]"
proof -
  let ?w = "\<lparr> session = Some [1], modelLoaded = True, modelLoading = False,
           modelCacheKey = ''rmbg_model_v1.4'', tasks = [], indexedDB = None, ort = True,
           canvas2d = True, io_log = [] \<rparr>"
  have h: "modelLoaded ?w \<or> modelLoading ?w"
    by simp
  have "progress (tasks (exec [Decoded 0 True, Tick 0, RunDone 0 True]
      (step (Invoke Base64String ReturnBase64) ?w)) ! 0) = [0, 2, 10, 15, 35, 70, 90, 100]"
    by (simp add: exec_def step_def removeBackground_def on_decoded_def checkModel_def
        on_tick_def on_run_done_def update_task_def start_def)
  with progress_increasing_without_own_load [OF h, of "[Decoded 0 True, Tick 0, RunDone 0 True]"
      Base64String ReturnBase64]
  show ?thesis
    by simp
qed

text \<open>
  C2 for the call that loads the model, the branch of lines 54 to 58.  With the model in
  the cache, the first call with an image passes 0, then 5, 15 and 30 from
  \<open>_loadModelWithProgress\<close>, and then 15 for the preprocessing: the percents are not
  increasing, as they are in the two other branches.
\<close>

theorem progress_drops_after_load:
  "progress (tasks (exec [Invoke ImageElement ReturnImage, CacheRead 0, SessionCreated 0 True,
        Tick 0, Tick 0, RunDone 0 True, Encoded 0 True]
      (new_instance ''rmbg_model_v1.4''
         (Some \<lparr> opens = OpenSuccess, transaction_ok = True, get_ok = True, put_ok = True,
                 models = [''rmbg_model_v1.4'' \<mapsto>
                   \<lparr> cached_data = [1], timestamp = 0, version = ''1.4'' \<rparr>] \<rparr>)
         True True)) ! 0)
     = [0, 5, 15, 30, 15, 35, 70, 90, 100]
   \<and> \<not> sorted_wrt (<) [0, 5, 15, 30, 15, 35, 70, 90, 100 :: int]"
  by (simp add: exec_def step_def new_instance_def removeBackground_def checkModel_def
      loadModelWithProgress_def on_cache_read_def getCachedModel_def on_session_created_def
      on_tick_def on_run_done_def on_encoded_def update_task_def start_def)

end
